theory Spec2Isabelle
  imports Main "HOL-Library.Multiset" "HOL-Library.Extended_Nat"
begin

text \<open>
  A model of the transcript, template, decision-parsing, batch-delivery and chunking code
  of the check-in bot (\<open>transcript.ts\<close>, \<open>promptConfig.ts\<close>, \<open>config.ts\<close> and the
  main module), and the properties of it that the specification states. The first part
  holds the model, function by function; the second part the lemmas and theorems.
\<close>

section \<open>Strings of the source language\<close>

text \<open>
  A TypeScript string is a sequence of UTF-16 code units, and \<open>length\<close>,
  \<open>slice\<close> and the regular expressions of the source (none has the \<open>u\<close> flag)
  count and match code units. A string is modelled as the list of its code units, each
  a natural number; \<open>js ''abc''\<close> is the string with the code units of an ASCII literal.
\<close>

type_synonym jsstring = "nat list"

abbreviation js :: "string \<Rightarrow> jsstring" where
  "js s \<equiv> map of_char s"

text \<open>
  The code units matched by \<open>\s\<close> and stripped by \<open>trim()\<close>: the WhiteSpace and
  LineTerminator productions of ECMAScript (tab, LF, VT, FF, CR, space, NBSP, U+1680,
  U+2000..U+200A, U+2028, U+2029, U+202F, U+205F, U+3000, U+FEFF).
\<close>

definition isWhiteSpace :: "nat \<Rightarrow> bool" where
  "isWhiteSpace c =
     (c = 9 \<or> c = 10 \<or> c = 11 \<or> c = 12 \<or> c = 13 \<or> c = 32 \<or> c = 160 \<or> c = 5760
      \<or> (8192 \<le> c \<and> c \<le> 8202) \<or> c = 8232 \<or> c = 8233 \<or> c = 8239 \<or> c = 8287
      \<or> c = 12288 \<or> c = 65279)"

definition trimStart :: "jsstring \<Rightarrow> jsstring" where
  "trimStart s = dropWhile isWhiteSpace s"

definition trimEnd :: "jsstring \<Rightarrow> jsstring" where
  "trimEnd s = rev (dropWhile isWhiteSpace (rev s))"

definition trim :: "jsstring \<Rightarrow> jsstring" where
  "trim s = trimEnd (trimStart s)"

text \<open>
  Case folding of the \<open>i\<close> flag. Every pattern of the source that carries the flag
  is made of ASCII characters; without the \<open>u\<close> flag a code unit above 127 is never
  folded onto an ASCII one, so a code unit matches an ASCII pattern character exactly when
  the two are equal after mapping \<open>a..z\<close> to \<open>A..Z\<close>.
\<close>

definition canonicalize :: "nat \<Rightarrow> nat" where
  "canonicalize c = (if 97 \<le> c \<and> c \<le> 122 then c - 32 else c)"

text \<open>\<open>toUpperCase()\<close>, which the source applies to a captured keyword only (ASCII letters).\<close>

definition toUpperCase :: "jsstring \<Rightarrow> jsstring" where
  "toUpperCase s = map canonicalize s"

subsection \<open>Regular expressions as matchers\<close>

text \<open>
  A pattern is modelled by a matcher: a function that tries the pattern at the start of
  its input and returns what the match yields, or \<open>None\<close>. \<open>litCI\<close> and \<open>litCS\<close> match a
  literal (with and without the \<open>i\<close> flag) and return the rest of the input; \<open>starWS\<close> is
  the greedy \<open>\s*\<close>, which takes as many white-space units as it can and gives them
  back one at a time while the rest of the pattern (the continuation \<open>k\<close>) fails;
  \<open>regexSearch\<close> is the search of \<open>String.prototype.match\<close> without the \<open>g\<close> flag: the
  match at the leftmost position where the pattern matches.
\<close>

fun litCI :: "jsstring \<Rightarrow> jsstring \<Rightarrow> jsstring option" where
  "litCI [] s = Some s"
| "litCI (p # ps) [] = None"
| "litCI (p # ps) (c # cs) = (if canonicalize p = canonicalize c then litCI ps cs else None)"

fun litCS :: "jsstring \<Rightarrow> jsstring \<Rightarrow> jsstring option" where
  "litCS [] s = Some s"
| "litCS (p # ps) [] = None"
| "litCS (p # ps) (c # cs) = (if p = c then litCS ps cs else None)"

fun starWS :: "(jsstring \<Rightarrow> 'a option) \<Rightarrow> jsstring \<Rightarrow> 'a option" where
  "starWS k [] = k []"
| "starWS k (c # cs) =
     (if isWhiteSpace c
      then (case starWS k cs of Some r \<Rightarrow> Some r | None \<Rightarrow> k (c # cs))
      else k (c # cs))"

fun regexSearch :: "(jsstring \<Rightarrow> 'a option) \<Rightarrow> jsstring \<Rightarrow> 'a option" where
  "regexSearch m [] = m []"
| "regexSearch m (c # cs) =
     (case m (c # cs) of Some r \<Rightarrow> Some r | None \<Rightarrow> regexSearch m cs)"

section \<open>The decision parser\<close>

text \<open>
  \<^verbatim>\<open>type StandbyDecision =
    | { action: "REPLY"; message: string }
    | { action: "ESCALATE"; reason: string; draft: string };\<close>
\<close>

datatype StandbyDecision =
    REPLY (message: jsstring)
  | ESCALATE (reason: jsstring) (draft: jsstring)

text \<open>\<^verbatim>\<open>/ACTION:\s*(REPLY|ESCALATE)/i\<close>, yielding capture group 1.\<close>

definition keywordAt :: "jsstring \<Rightarrow> jsstring option" where
  "keywordAt t =
     (case litCI (js ''REPLY'') t of
        Some _ \<Rightarrow> Some (take 5 t)
      | None \<Rightarrow> (case litCI (js ''ESCALATE'') t of
                   Some _ \<Rightarrow> Some (take 8 t)
                 | None \<Rightarrow> None))"

definition actionAt :: "jsstring \<Rightarrow> jsstring option" where
  "actionAt s = (case litCI (js ''ACTION:'') s of
                   None \<Rightarrow> None
                 | Some r \<Rightarrow> starWS keywordAt r)"

text \<open>\<^verbatim>\<open>/MESSAGE:\s*([\s\S]*)/i\<close>: the capture runs to the end of the text.\<close>

definition messageAt :: "jsstring \<Rightarrow> jsstring option" where
  "messageAt s = (case litCI (js ''MESSAGE:'') s of
                    None \<Rightarrow> None
                  | Some r \<Rightarrow> starWS Some r)"

text \<open>\<^verbatim>\<open>/REASON:\s*([^\n]+)/i\<close>: the capture is a non-empty run of units other than LF.\<close>

definition lineAt :: "jsstring \<Rightarrow> jsstring option" where
  "lineAt t = (let cap = takeWhile (\<lambda>c. c \<noteq> 10) t in if cap = [] then None else Some cap)"

definition reasonAt :: "jsstring \<Rightarrow> jsstring option" where
  "reasonAt s = (case litCI (js ''REASON:'') s of
                   None \<Rightarrow> None
                 | Some r \<Rightarrow> starWS lineAt r)"

text \<open>\<^verbatim>\<open>/DRAFT:\s*([\s\S]*)/i\<close>.\<close>

definition draftAt :: "jsstring \<Rightarrow> jsstring option" where
  "draftAt s = (case litCI (js ''DRAFT:'') s of
                  None \<Rightarrow> None
                | Some r \<Rightarrow> starWS Some r)"

text \<open>
  \<^verbatim>\<open>function parseStandbyDecision(raw: string): StandbyDecision\<close>. An optional chain
  \<open>x.match(re)?.[1]?.trim()\<close> is \<open>map_option trim\<close> of the search; \<open>if (message)\<close> holds
  for a string that is present and not empty; \<open>slice(0, 500)\<close> is \<open>take 500\<close>. No
  operation of the function can throw on a string, so the model has no error branch.
\<close>

definition parseStandbyDecision :: "jsstring \<Rightarrow> StandbyDecision" where
  "parseStandbyDecision raw =
     (let normalized = trim raw;
          action = map_option toUpperCase (regexSearch actionAt normalized);
          message = (if action = Some (js ''REPLY'')
                     then map_option trim (regexSearch messageAt normalized)
                     else None)
      in case (case message of Some m \<Rightarrow> if m \<noteq> [] then Some m else None | None \<Rightarrow> None) of
           Some m \<Rightarrow> REPLY m
         | None \<Rightarrow>
             if action = Some (js ''ESCALATE'')
             then ESCALATE
                    (case map_option trim (regexSearch reasonAt normalized) of
                       Some r \<Rightarrow> r
                     | None \<Rightarrow> js ''Uncertain response.'')
                    (case map_option trim (regexSearch draftAt normalized) of
                       Some d \<Rightarrow> d
                     | None \<Rightarrow> [])
             else ESCALATE (js ''Could not parse assistant decision.'') (take 500 normalized))"

text \<open>
  The inputs the parser cannot use: the trimmed text has no match of the \<open>ACTION:\<close>
  pattern, or the action is \<open>REPLY\<close> and the \<open>MESSAGE:\<close> pattern has no match or
  captures only white space.
\<close>

definition unparseable :: "jsstring \<Rightarrow> bool" where
  "unparseable raw =
     (let normalized = trim raw;
          action = map_option toUpperCase (regexSearch actionAt normalized)
      in action = None \<or>
         (action = Some (js ''REPLY'') \<and>
          (case regexSearch messageAt normalized of
             None \<Rightarrow> True
           | Some m \<Rightarrow> trim m = [])))"

text \<open>
  \<open>containsCI tok s\<close>: the literal \<open>tok\<close> occurs in \<open>s\<close> in some letter case, that is,
  \<open>/tok/i\<close> has a match in \<open>s\<close>.
\<close>

fun containsCI :: "jsstring \<Rightarrow> jsstring \<Rightarrow> bool" where
  "containsCI tok [] = (litCI tok [] \<noteq> None)"
| "containsCI tok (c # cs) = (litCI tok (c # cs) \<noteq> None \<or> containsCI tok cs)"

section \<open>Transcripts (transcript.ts)\<close>

text \<open>
  A message as the chat platform delivers it (the fields the code reads; \<open>rawDisplayName\<close>
  is \<open>m.member?.displayName\<close>), and a message of a transcript. A creation time is the
  number of milliseconds \<open>getTime()\<close> returns.
\<close>

record RawMessage =
  rawId :: jsstring
  rawAuthorId :: jsstring
  rawDisplayName :: "jsstring option"
  rawUsername :: jsstring
  rawCreatedAt :: int
  rawContent :: jsstring

record TranscriptMessage =
  msgId :: jsstring
  authorId :: jsstring
  authorName :: jsstring
  createdAt :: int
  content :: jsstring

text \<open>\<^verbatim>\<open>content.replace(/\s+/g, " ")\<close>: every maximal run of white space becomes one space.\<close>

function collapseWhiteSpace :: "jsstring \<Rightarrow> jsstring" where
  "collapseWhiteSpace [] = []"
| "collapseWhiteSpace (c # cs) =
     (if isWhiteSpace c then 32 # collapseWhiteSpace (dropWhile isWhiteSpace cs)
      else c # collapseWhiteSpace cs)"
  by pat_completeness auto
termination
  by (relation "measure length") (auto simp add: length_dropWhile_le less_Suc_eq_le)

definition cleanContent :: "jsstring \<Rightarrow> jsstring" where
  "cleanContent c = (let compact = trim (collapseWhiteSpace c)
                     in if length compact = 0 then js ''[no text]'' else compact)"

definition toTranscriptMessage :: "RawMessage \<Rightarrow> TranscriptMessage" where
  "toTranscriptMessage m =
     \<lparr> msgId = rawId m,
       authorId = rawAuthorId m,
       authorName = (case rawDisplayName m of Some n \<Rightarrow> n | None \<Rightarrow> rawUsername m),
       createdAt = rawCreatedAt m,
       content = cleanContent (rawContent m) \<rparr>"

text \<open>
  The message store of a channel: \<open>channel.messages.fetch({ limit: 100, before })\<close> as a
  function from the cursor \<open>before\<close> to the page it returns, newest message first. The
  loop of \<open>fetchAllMessages\<close> runs until the store returns an empty page, so it is a
  partial function: \<open>None\<close> stands for a loop that never ends. \<open>page.lastKey()\<close> is the
  id of the last message of the page. The final \<open>sort\<close> is stable and compares creation
  times, which is what \<open>sort_key\<close> computes.
\<close>

type_synonym MessageStore = "jsstring option \<Rightarrow> RawMessage list"

partial_function (option) fetchLoop ::
  "MessageStore \<Rightarrow> jsstring option \<Rightarrow> TranscriptMessage list \<Rightarrow> TranscriptMessage list option" where
  "fetchLoop fetch before all =
     (let page = fetch before
      in if length page = 0 then Some all
         else fetchLoop fetch (Some (rawId (last page))) (all @ map toTranscriptMessage page))"

definition fetchAllMessages :: "MessageStore \<Rightarrow> TranscriptMessage list option" where
  "fetchAllMessages fetch = map_option (sort_key createdAt) (fetchLoop fetch None [])"

text \<open>
  A number of the source language is an IEEE double. The numbers the code computes with
  (check-in numbers, team numbers, the counter) are non-negative integers or
  \<open>Infinity\<close>, and they are modelled as extended natural numbers that are values of
  doubles: \<open>roundDouble n\<close> is the double nearest to the natural number \<open>n\<close>, ties going
  to the even significand. A double has 53 significant bits, so the doubles between
  \<open>2 ^ (52 + k)\<close> and \<open>2 ^ (53 + k)\<close> are the multiples of \<open>2 ^ k\<close>, which is
  \<open>ulpOf\<close>; every natural number below \<open>2 ^ 53\<close> is a double; what rounds to
  \<open>2 ^ 1024\<close> or more is \<open>Infinity\<close>.
\<close>

function ulpOf :: "nat \<Rightarrow> nat" where
  "ulpOf n = (if n < 2 ^ 53 then 1 else 2 * ulpOf (n div 2))"
  by pat_completeness auto
termination
  by (relation "measure (\<lambda>n. n)") auto

declare ulpOf.simps [simp del]

definition roundDouble :: "nat \<Rightarrow> nat" where
  "roundDouble n =
     (let u = ulpOf n; q = n div u; r = n mod u
      in if 2 * r < u \<or> (2 * r = u \<and> even q) then q * u else (q + 1) * u)"

definition doubleOfNat :: "nat \<Rightarrow> enat" where
  "doubleOfNat n = (if roundDouble n < 2 ^ 1024 then enat (roundDouble n) else \<infinity>)"

text \<open>
  \<^verbatim>\<open>CHECKIN_MARKER_REGEX = /\[POLY_CHECKIN #(\d+)\]/i\<close>. The digits are taken greedily;
  giving digits back cannot help, because what then follows is a digit and not \<open>]\<close>.
  \<open>Number\<close> of a captured digit string is the double nearest to the number the digits
  denote (\<open>decimalValue\<close>).
\<close>

definition isDigit :: "nat \<Rightarrow> bool" where
  "isDigit c = (48 \<le> c \<and> c \<le> 57)"

definition decimalValue :: "jsstring \<Rightarrow> nat" where
  "decimalValue ds = foldl (\<lambda>n c. 10 * n + (c - 48)) 0 ds"

definition Number :: "jsstring \<Rightarrow> enat" where
  "Number ds = doubleOfNat (decimalValue ds)"

definition markerAt :: "jsstring \<Rightarrow> jsstring option" where
  "markerAt s =
     (case litCI (js ''[POLY_CHECKIN #'') s of
        None \<Rightarrow> None
      | Some r \<Rightarrow>
          (let ds = takeWhile isDigit r
           in if ds \<noteq> [] \<and> litCI (js '']'') (drop (length ds) r) \<noteq> None then Some ds else None))"

text \<open>\<^verbatim>\<open>export async function buildTranscript(channel, botUserId)\<close>: the loop over the
  sorted messages keeps the pair \<open>(latestCheckinNumber, latestCheckinTimestamp)\<close>.\<close>

record ChannelTranscript =
  channelId :: jsstring
  channelName :: jsstring
  messages :: "TranscriptMessage list"
  latestCheckinNumber :: "enat option"
  latestCheckinTimestamp :: "int option"

fun scanCheckins ::
  "jsstring \<Rightarrow> TranscriptMessage list \<Rightarrow> enat option \<times> int option \<Rightarrow> enat option \<times> int option" where
  "scanCheckins botUserId [] latest = latest"
| "scanCheckins botUserId (m # ms) latest =
     (if authorId m \<noteq> botUserId then scanCheckins botUserId ms latest
      else (case regexSearch markerAt (content m) of
              None \<Rightarrow> scanCheckins botUserId ms latest
            | Some markerMatch \<Rightarrow>
                scanCheckins botUserId ms (Some (Number markerMatch), Some (createdAt m))))"

definition buildTranscript ::
  "jsstring \<Rightarrow> jsstring \<Rightarrow> MessageStore \<Rightarrow> jsstring \<Rightarrow> ChannelTranscript option" where
  "buildTranscript chId chName fetch botUserId =
     (case fetchAllMessages fetch of
        None \<Rightarrow> None
      | Some msgs \<Rightarrow>
          (let latest = scanCheckins botUserId msgs (None, None)
           in Some \<lparr> channelId = chId, channelName = chName, messages = msgs,
                     latestCheckinNumber = fst latest,
                     latestCheckinTimestamp = snd latest \<rparr>))"

text \<open>
  The cursor after \<open>n\<close> pages; the raw messages of the pages the loop reads from a
  cursor on, at most \<open>n\<close> pages and up to the first empty one, in the order of their
  delivery; and the check-in numbers a transcript holds.
\<close>

fun cursorFrom :: "MessageStore \<Rightarrow> jsstring option \<Rightarrow> nat \<Rightarrow> jsstring option" where
  "cursorFrom fetch before 0 = before"
| "cursorFrom fetch before (Suc n) = cursorFrom fetch (Some (rawId (last (fetch before)))) n"

fun pagesFrom :: "MessageStore \<Rightarrow> jsstring option \<Rightarrow> nat \<Rightarrow> RawMessage list" where
  "pagesFrom fetch before 0 = []"
| "pagesFrom fetch before (Suc n) =
     (if fetch before = [] then []
      else fetch before @ pagesFrom fetch (Some (rawId (last (fetch before)))) n)"

definition checkinNumberOf :: "TranscriptMessage \<Rightarrow> enat option" where
  "checkinNumberOf m = map_option Number (regexSearch markerAt (content m))"

definition markerNumber :: "TranscriptMessage \<Rightarrow> enat" where
  "markerNumber m = (case checkinNumberOf m of Some n \<Rightarrow> n | None \<Rightarrow> 0)"

definition botMarkers :: "jsstring \<Rightarrow> TranscriptMessage list \<Rightarrow> TranscriptMessage list" where
  "botMarkers botUserId msgs =
     filter (\<lambda>m. authorId m = botUserId \<and> checkinNumberOf m \<noteq> None) msgs"

text \<open>
  \<^verbatim>\<open>async function detectLastCheckinNumber(controlChannel, botUserId)\<close>, current
  revision: the loop over the history keeps \<open>max\<close>, starting from 0.
\<close>

fun scanMax :: "jsstring \<Rightarrow> TranscriptMessage list \<Rightarrow> enat \<Rightarrow> enat" where
  "scanMax botUserId [] mx = mx"
| "scanMax botUserId (msg # history) mx =
     (if authorId msg \<noteq> botUserId then scanMax botUserId history mx
      else (case regexSearch markerAt (content msg) of
              Some fromMarker \<Rightarrow> scanMax botUserId history (max mx (Number fromMarker))
            | None \<Rightarrow> scanMax botUserId history mx))"

definition detectLastCheckinNumber :: "MessageStore \<Rightarrow> jsstring \<Rightarrow> enat option" where
  "detectLastCheckinNumber fetch botUserId =
     (case fetchAllMessages fetch of
        None \<Rightarrow> None
      | Some history \<Rightarrow> Some (scanMax botUserId history 0))"

text \<open>
  The earlier revision of \<open>detectLastCheckinNumber\<close> kept in the repository, which also
  reads the human-readable phrase \<^verbatim>\<open>/Check-in #(\d+)/i\<close> from a message without marker.
\<close>

definition legacyAt :: "jsstring \<Rightarrow> jsstring option" where
  "legacyAt s =
     (case litCI (js ''Check-in #'') s of
        None \<Rightarrow> None
      | Some r \<Rightarrow> (let ds = takeWhile isDigit r in if ds \<noteq> [] then Some ds else None))"

fun scanMaxLegacy :: "jsstring \<Rightarrow> TranscriptMessage list \<Rightarrow> enat \<Rightarrow> enat" where
  "scanMaxLegacy botUserId [] mx = mx"
| "scanMaxLegacy botUserId (msg # history) mx =
     (if authorId msg \<noteq> botUserId then scanMaxLegacy botUserId history mx
      else (case regexSearch markerAt (content msg) of
              Some fromMarker \<Rightarrow> scanMaxLegacy botUserId history (max mx (Number fromMarker))
            | None \<Rightarrow>
                (case regexSearch legacyAt (content msg) of
                   Some fromSummary \<Rightarrow> scanMaxLegacy botUserId history (max mx (Number fromSummary))
                 | None \<Rightarrow> scanMaxLegacy botUserId history mx)))"

definition detectLastCheckinNumberLegacy :: "MessageStore \<Rightarrow> jsstring \<Rightarrow> enat option" where
  "detectLastCheckinNumberLegacy fetch botUserId =
     (case fetchAllMessages fetch of
        None \<Rightarrow> None
      | Some history \<Rightarrow> Some (scanMaxLegacy botUserId history 0))"


definition markerNumbers :: "jsstring \<Rightarrow> ChannelTranscript \<Rightarrow> enat list" where
  "markerNumbers uid t = map markerNumber (botMarkers uid (messages t))"

text \<open>
  Channel histories used as examples. In the first the store hands out two pages and the
  bot's older marker carries the larger number; the second store hands out the same
  messages on one page, in another order; the third is the control channel of the
  specification's scenario: bot messages with markers 1 and 2, then a marker 99 written
  by somebody else.
\<close>

definition rawMsg :: "string \<Rightarrow> string \<Rightarrow> int \<Rightarrow> string \<Rightarrow> RawMessage" where
  "rawMsg i a t c =
     \<lparr> rawId = js i, rawAuthorId = js a, rawDisplayName = None, rawUsername = js a,
       rawCreatedAt = t, rawContent = js c \<rparr>"

definition pagedStore :: MessageStore where
  "pagedStore before =
     (if before = None
      then [rawMsg ''3'' ''bot'' 30 ''[POLY_CHECKIN #2] second round'',
            rawMsg ''2'' ''ann'' 20 ''we are   fine'']
      else if before = Some (js ''2'')
      then [rawMsg ''1'' ''bot'' 10 ''[POLY_CHECKIN #5] first round'']
      else [])"

definition flatStore :: MessageStore where
  "flatStore before =
     (if before = None
      then [rawMsg ''1'' ''bot'' 10 ''[POLY_CHECKIN #5] first round'',
            rawMsg ''3'' ''bot'' 30 ''[POLY_CHECKIN #2] second round'',
            rawMsg ''2'' ''ann'' 20 ''we are   fine'']
      else [])"

definition controlStore :: MessageStore where
  "controlStore before =
     (if before = None
      then [rawMsg ''3'' ''ann'' 30 ''[POLY_CHECKIN #99]'',
            rawMsg ''2'' ''bot'' 20 ''[POLY_CHECKIN #2]'',
            rawMsg ''1'' ''bot'' 10 ''[POLY_CHECKIN #1]'']
      else [])"

section \<open>Templates (promptConfig.ts)\<close>

definition isWordChar :: "nat \<Rightarrow> bool" where
  "isWordChar c = ((97 \<le> c \<and> c \<le> 122) \<or> (65 \<le> c \<and> c \<le> 90) \<or> (48 \<le> c \<and> c \<le> 57) \<or> c = 95)"

definition isWord :: "jsstring \<Rightarrow> bool" where
  "isWord k = (k \<noteq> [] \<and> list_all isWordChar k)"

text \<open>
  \<^verbatim>\<open>PLACEHOLDER_REGEX = /{{\s*([a-zA-Z0-9_]+)\s*}}/g\<close>, as a matcher that yields the
  captured name and the rest of the input. The name is taken greedily; giving part of it
  back cannot help, because what then follows is a word character.
\<close>

definition nameThenClose :: "jsstring \<Rightarrow> (jsstring \<times> jsstring) option" where
  "nameThenClose t =
     (let nm = takeWhile isWordChar t
      in if nm = [] then None
         else (case starWS (litCS (js ''}}'')) (drop (length nm) t) of
                 None \<Rightarrow> None
               | Some rest \<Rightarrow> Some (nm, rest)))"

definition placeholderAt :: "jsstring \<Rightarrow> (jsstring \<times> jsstring) option" where
  "placeholderAt s = (case litCS (js ''{{'') s of
                        None \<Rightarrow> None
                      | Some r \<Rightarrow> starWS nameThenClose r)"

text \<open>
  \<^verbatim>\<open>new RegExp(`{{\\s*${key}\\s*}}`, "g")\<close>. The key is put into the expression as it
  is, so its characters are read as expression syntax. A key without any syntax character
  (\<open>^ $ \ . * + ? ( ) [ ] { } |\<close>) is a sequence of pattern characters, which match
  themselves: this is the case of a placeholder name, and so of every key the program
  passes. A key whose only syntax characters are parentheses that do not balance makes
  the expression ill-formed, and the constructor throws a \<open>SyntaxError\<close>. What any
  other key means is not modelled. \<open>keyAt\<close> is the matcher of a key that is read as a
  literal.
\<close>

definition isSyntaxCharacter :: "nat \<Rightarrow> bool" where
  "isSyntaxCharacter c =
     (c = 94 \<or> c = 36 \<or> c = 92 \<or> c = 46 \<or> c = 42 \<or> c = 43 \<or> c = 63 \<or> c = 40 \<or> c = 41
      \<or> c = 91 \<or> c = 93 \<or> c = 123 \<or> c = 125 \<or> c = 124)"

fun groupDepth :: "jsstring \<Rightarrow> nat \<Rightarrow> nat option" where
  "groupDepth [] d = Some d"
| "groupDepth (c # cs) d =
     (if c = 40 then groupDepth cs (d + 1)
      else if c = 41 then (if d = 0 then None else groupDepth cs (d - 1))
      else groupDepth cs d)"

datatype KeyPattern = LiteralPattern | InvalidPattern | OtherPattern

definition keyPattern :: "jsstring \<Rightarrow> KeyPattern" where
  "keyPattern key =
     (if list_all (\<lambda>c. \<not> isSyntaxCharacter c) key then LiteralPattern
      else if list_all (\<lambda>c. \<not> isSyntaxCharacter c \<or> c = 40 \<or> c = 41) key \<and>
              groupDepth key 0 \<noteq> Some 0
      then InvalidPattern
      else OtherPattern)"

definition keyThenClose :: "jsstring \<Rightarrow> jsstring \<Rightarrow> jsstring option" where
  "keyThenClose key t = (case litCS key t of
                           None \<Rightarrow> None
                         | Some u \<Rightarrow> starWS (litCS (js ''}}'')) u)"

definition keyAt :: "jsstring \<Rightarrow> jsstring \<Rightarrow> jsstring option" where
  "keyAt key s = (case litCS (js ''{{'') s of
                    None \<Rightarrow> None
                  | Some r \<Rightarrow> starWS (keyThenClose key) r)"

text \<open>A match consumes input: these facts give the termination of the two scans below.\<close>

lemma litCS_length: "litCS p s = Some r \<Longrightarrow> length r \<le> length s"
  by (induction p s rule: litCS.induct) (auto split: if_splits)

lemma litCS_length_less: "litCS p s = Some r \<Longrightarrow> p \<noteq> [] \<Longrightarrow> length r < length s"
  by (induction p s rule: litCS.induct) (auto split: if_splits dest: litCS_length)

lemma starWS_length:
  assumes k: "\<And>t v. k t = Some v \<Longrightarrow> length (f v) \<le> length t"
  shows "starWS k s = Some v \<Longrightarrow> length (f v) \<le> length s"
proof (induction s)
  case Nil
  then show ?case using k [of "[]" v] by simp
next
  case (Cons c s)
  show ?case
  proof (cases "isWhiteSpace c \<and> starWS k s \<noteq> None")
    case True
    then have "starWS k s = Some v" using Cons.prems by auto
    then have "length (f v) \<le> length s" by (rule Cons.IH)
    then show ?thesis by simp
  next
    case False
    then have "k (c # s) = Some v"
      using Cons.prems by (auto split: if_splits option.splits)
    then show ?thesis by (rule k)
  qed
qed

lemma closeAt_length:
  assumes "starWS (litCS (js ''}}'')) u = Some v"
  shows "length v \<le> length u"
  using assms by (rule starWS_length [where f = "\<lambda>r. r", rotated]) (rule litCS_length)

lemma nameThenClose_length:
  assumes "nameThenClose t = Some v"
  shows "length (snd v) \<le> length t"
proof -
  from assms obtain rest
    where r: "starWS (litCS (js ''}}'')) (drop (length (takeWhile isWordChar t)) t) = Some rest"
      and v: "v = (takeWhile isWordChar t, rest)"
    by (auto simp add: nameThenClose_def Let_def split: if_splits option.splits)
  from closeAt_length [OF r] show ?thesis using v by simp
qed

lemma placeholderAt_length:
  assumes "placeholderAt s = Some (nm, rest)"
  shows "length rest < length s"
proof -
  from assms obtain r
    where r: "litCS (js ''{{'') s = Some r" and w: "starWS nameThenClose r = Some (nm, rest)"
    by (auto simp add: placeholderAt_def split: option.splits)
  have "length (snd (nm, rest)) \<le> length r"
    using w by (rule starWS_length [where f = snd, rotated]) (rule nameThenClose_length)
  moreover have "length r < length s"
    using r by (rule litCS_length_less) simp
  ultimately show ?thesis by simp
qed

lemma keyThenClose_length:
  assumes "keyThenClose key t = Some v"
  shows "length v \<le> length t"
proof -
  from assms obtain u where u: "litCS key t = Some u" and c: "starWS (litCS (js ''}}'')) u = Some v"
    by (auto simp add: keyThenClose_def split: option.splits)
  from closeAt_length [OF c] litCS_length [OF u] show ?thesis by simp
qed

lemma keyAt_length:
  assumes "keyAt key s = Some rest"
  shows "length rest < length s"
proof -
  from assms obtain r
    where r: "litCS (js ''{{'') s = Some r" and w: "starWS (keyThenClose key) r = Some rest"
    by (auto simp add: keyAt_def split: option.splits)
  have "length rest \<le> length r"
    using w by (rule starWS_length [where f = "\<lambda>r. r", rotated]) (rule keyThenClose_length)
  moreover have "length r < length s"
    using r by (rule litCS_length_less) simp
  ultimately show ?thesis by simp
qed

text \<open>\<^verbatim>\<open>[...out.matchAll(PLACEHOLDER_REGEX)].map((m) => m[1])\<close>: the names of all matches,
  left to right, each search starting where the previous match ended.\<close>

function unresolvedPlaceholders :: "jsstring \<Rightarrow> jsstring list" where
  "unresolvedPlaceholders [] = []"
| "unresolvedPlaceholders (c # cs) =
     (case placeholderAt (c # cs) of
        Some (nm, rest) \<Rightarrow> nm # unresolvedPlaceholders rest
      | None \<Rightarrow> unresolvedPlaceholders cs)"
  by pat_completeness auto
termination
  by (relation "measure length") (auto dest: placeholderAt_length)

text \<open>
  \<^verbatim>\<open>out.replace(pattern, value)\<close> with a global pattern and a string \<open>value\<close>. The value
  is a replacement template: \<open>$$\<close> stands for \<open>$\<close>, \<open>$&\<close> for the matched text,
  \<open>$`\<close> and \<open>$'\<close> for the text before and after the match; the pattern has no capture
  group, so any other \<open>$\<close> is literal. \<open>pre\<close> is the part of the input before the
  position the scan has reached.
\<close>

fun getSubstitution :: "jsstring \<Rightarrow> jsstring \<Rightarrow> jsstring \<Rightarrow> jsstring \<Rightarrow> jsstring" where
  "getSubstitution matched pre post [] = []"
| "getSubstitution matched pre post [c] = [c]"
| "getSubstitution matched pre post (c # d # rest) =
     (if c = 36
      then (if d = 36 then 36 # getSubstitution matched pre post rest
            else if d = 38 then matched @ getSubstitution matched pre post rest
            else if d = 96 then pre @ getSubstitution matched pre post rest
            else if d = 39 then post @ getSubstitution matched pre post rest
            else 36 # getSubstitution matched pre post (d # rest))
      else c # getSubstitution matched pre post (d # rest))"

function replaceAllKey :: "jsstring \<Rightarrow> jsstring \<Rightarrow> jsstring \<Rightarrow> jsstring \<Rightarrow> jsstring" where
  "replaceAllKey key value pre [] = []"
| "replaceAllKey key value pre (c # cs) =
     (case keyAt key (c # cs) of
        Some rest \<Rightarrow>
          (let matched = take (length (c # cs) - length rest) (c # cs)
           in getSubstitution matched pre rest value @ replaceAllKey key value (pre @ matched) rest)
      | None \<Rightarrow> c # replaceAllKey key value (pre @ [c]) cs)"
  by pat_completeness auto
termination
  by (relation "measure (\<lambda>(key, value, pre, s). length s)") (auto dest: keyAt_length)

text \<open>
  \<^verbatim>\<open>Array.prototype.join\<close>; what ends a call other than a returned string: the
  thrown \<^verbatim>\<open>Error\<close> with its message, the \<open>SyntaxError\<close> of the expression
  constructor, or a key outside the model; and
  \<^verbatim>\<open>export function renderTemplate(template, values)\<close>, \<open>values\<close> being the list
  \<open>Object.entries(values)\<close>.
\<close>

fun joinWith :: "jsstring \<Rightarrow> jsstring list \<Rightarrow> jsstring" where
  "joinWith sep [] = []"
| "joinWith sep [x] = x"
| "joinWith sep (x # y # zs) = x @ sep @ joinWith sep (y # zs)"

datatype Failure = Error jsstring | SyntaxError | Unmodelled

fun substituteAll :: "(jsstring \<times> jsstring) list \<Rightarrow> jsstring \<Rightarrow> Failure + jsstring" where
  "substituteAll [] out = Inr out"
| "substituteAll ((key, value) # entries) out =
     (case keyPattern key of
        LiteralPattern \<Rightarrow> substituteAll entries (replaceAllKey key value [] out)
      | InvalidPattern \<Rightarrow> Inl SyntaxError
      | OtherPattern \<Rightarrow> Inl Unmodelled)"

definition renderTemplate :: "jsstring \<Rightarrow> (jsstring \<times> jsstring) list \<Rightarrow> Failure + jsstring" where
  "renderTemplate template values =
     (case substituteAll values template of
        Inl failure \<Rightarrow> Inl failure
      | Inr out \<Rightarrow>
          (let unresolved = unresolvedPlaceholders out
           in if length unresolved > 0
              then Inl (Error (js ''Template has unresolved placeholders: '' @
                               joinWith (js '', '') unresolved))
              else Inr out))"

subsection \<open>What the specification says of a template\<close>














section \<open>Channels, batch delivery and the check-in counter\<close>

text \<open>
  A channel of the guild's cache (the fields the code reads), \<open>GuildText\<close> standing for
  \<open>ChannelType.GuildText\<close>; several channels of a guild may bear the same name.
\<close>

datatype ChannelType = GuildText | OtherChannelType

record Channel =
  chId :: jsstring
  chName :: jsstring
  chType :: ChannelType

text \<open>
  \<^verbatim>\<open>TEAM_CHANNEL_REGEX = /^team-(\d{1,2})$/i\<close>: the whole name is \<open>team-\<close> and one or
  two digits. \<open>isTeamTextChannel\<close>, \<open>getTeamNumber\<close> and \<open>getTeamChannels\<close> follow; the
  \<open>sort\<close> of a collection is stable.
\<close>

definition MAX_TEAM_NUMBER :: enat where
  "MAX_TEAM_NUMBER = 3"

definition teamChannelMatch :: "jsstring \<Rightarrow> jsstring option" where
  "teamChannelMatch nm =
     (case litCI (js ''team-'') nm of
        None \<Rightarrow> None
      | Some r \<Rightarrow> if (length r = 1 \<or> length r = 2) \<and> list_all isDigit r then Some r else None)"

definition isTeamTextChannel :: "Channel \<Rightarrow> bool" where
  "isTeamTextChannel channel = (teamChannelMatch (chName channel) \<noteq> None)"

definition getTeamNumber :: "jsstring \<Rightarrow> enat" where
  "getTeamNumber nm =
     (case teamChannelMatch nm of Some d \<Rightarrow> Number d | None \<Rightarrow> 999)"

definition getTeamChannels :: "Channel list \<Rightarrow> Channel list" where
  "getTeamChannels cache =
     sort_key (\<lambda>ch. getTeamNumber (chName ch))
       (filter (\<lambda>ch. getTeamNumber (chName ch) \<le> MAX_TEAM_NUMBER)
         (filter isTeamTextChannel
           (filter (\<lambda>ch. chType ch = GuildText) cache)))"

text \<open>
  The delivery loop of \<open>runCheckin\<close> and \<open>runSend\<close>:
  \<^verbatim>\<open>for (const channel of ...) { try { await sendToTeamChannel(...); sent.push(channel.name); }
    catch { failed.push(channel.name); } }\<close>.
  \<open>delivers channel\<close> says whether \<open>sendToTeamChannel\<close> resolves for the channel.
\<close>

fun sendLoop ::
  "(Channel \<Rightarrow> bool) \<Rightarrow> Channel list \<Rightarrow> jsstring list \<times> jsstring list \<Rightarrow> jsstring list \<times> jsstring list" where
  "sendLoop delivers [] (sent, failed) = (sent, failed)"
| "sendLoop delivers (channel # channels) (sent, failed) =
     (if delivers channel
      then sendLoop delivers channels (sent @ [chName channel], failed)
      else sendLoop delivers channels (sent, failed @ [chName channel]))"

text \<open>
  \<open>String(n)\<close> of a number. \<open>decimal\<close> gives the decimal digits of a natural number.
  The string of a double is made of the shortest digit sequence that still denotes a
  number rounding to that double (\<open>Number::toString\<close>): \<open>shortestFrom x j\<close> looks for
  the multiple of \<open>10 ^ j\<close>, then of \<open>10 ^ (j - 1)\<close> and so on, that rounds to \<open>x\<close>,
  taking the one nearest to \<open>x\<close> when two of them do. Below \<open>10 ^ 21\<close> the string is
  the decimal form of that multiple, from there on its exponent form; below \<open>2 ^ 53\<close>
  it is the decimal form of the number itself.
\<close>

function decimal :: "nat \<Rightarrow> jsstring" where
  "decimal n = (if n < 10 then [48 + n] else decimal (n div 10) @ [48 + n mod 10])"
  by pat_completeness auto
termination
  by (relation "measure (\<lambda>n. n)") auto

declare decimal.simps [simp del]

fun shortestFrom :: "nat \<Rightarrow> nat \<Rightarrow> nat" where
  "shortestFrom x j =
     (if j = 0 then x
      else (let p = 10 ^ j; lo = (x div p) * p; hi = lo + p;
                okLo = (roundDouble lo = x); okHi = (roundDouble hi = x)
            in if okLo \<and> okHi
               then (if x - lo < hi - x \<or> (x - lo = hi - x \<and> even (x div p)) then lo else hi)
               else if okLo then lo
               else if okHi then hi
               else shortestFrom x (j - 1)))"

declare shortestFrom.simps [simp del]

definition numberToString :: "enat \<Rightarrow> jsstring" where
  "numberToString x =
     (case x of
        \<infinity> \<Rightarrow> js ''Infinity''
      | enat m \<Rightarrow>
          (let c = shortestFrom m (length (decimal m) - 1)
           in if c < 10 ^ 21 then decimal c
              else (let digits = decimal c;
                        s = rev (dropWhile (\<lambda>d. d = 48) (rev digits))
                    in (if length s = 1 then s else hd s # 46 # tl s) @
                       js ''e+'' @ decimal (length digits - 1))))"

text \<open>The table of messages.\<close>

definition CHECKIN_MESSAGES :: "jsstring list" where
  "CHECKIN_MESSAGES =
     [js ''Just checking in here team, how are things going? Can you give me a quick project update and let me know if you have any blockers.'',
      js ''Quick pulse check, team. How is the project looking right now, and are any blockers slowing you down.'',
      js ''Checking in on progress. Drop a short update on what you shipped and anything currently blocking momentum.'',
      js ''How are things feeling right now, team? Share a brief status update and call out blockers if you have them.'',
      js ''Status check: what is working well, what is in progress, and what blockers should we clear for you.'',
      js ''Quick team sync from me. Where are you at with the build, and what blockers are getting in the way.'',
      js ''Give me a fast snapshot of your project status and any blockers that need support.'',
      js ''How is the project moving along? Send a short update and flag blockers so we can unblock you fast.'',
      js ''Team check-in time. What did you finish recently, what is next, and what is blocking you right now.'',
      js ''Dropping in for a quick update. How is the build going, and do you need help with any blockers.'']"

text \<open>
  What a command finds when it runs: whether \<open>loadPromptConfig\<close> resolves and with
  which check-in template, whether the guild can be fetched, whether the control channel
  is a text channel, the channel cache, the history of the control channel, the bot's
  user id, the value \<open>buildCheckinAddOn\<close> resolves to (it catches the failures of its
  rewriting call), and which deliveries succeed.
\<close>

record World =
  checkinTemplate :: "jsstring option"
  guildAvailable :: bool
  controlIsText :: bool
  channelsCache :: "Channel list"
  controlMessages :: MessageStore
  botUser :: jsstring
  extraPromptBlock :: jsstring
  delivers :: "Channel \<Rightarrow> bool"

text \<open>
  \<^verbatim>\<open>async function runSend(interaction)\<close>, with the target option (\<open>all\<close> when absent).
  \<open>None\<close> stands for a rejected promise; the reply is the summary's two lists.
\<close>

datatype SendReply =
    SendNoTeamChannels
  | SendTargetNotFound
  | SendSummary "jsstring list" "jsstring list"

definition selectedChannels :: "World \<Rightarrow> jsstring \<Rightarrow> Channel list" where
  "selectedChannels w target =
     (let teamChannels = getTeamChannels (channelsCache w)
      in if target = js ''all'' then teamChannels
         else filter (\<lambda>c. chName c = target) teamChannels)"

definition runSend :: "World \<Rightarrow> jsstring \<Rightarrow> SendReply option" where
  "runSend w target =
     (if \<not> guildAvailable w then None
      else if length (getTeamChannels (channelsCache w)) = 0 then Some SendNoTeamChannels
      else if length (selectedChannels w target) = 0 then Some SendTargetNotFound
      else (case sendLoop (delivers w) (selectedChannels w target) ([], []) of
              (sent, failed) \<Rightarrow> Some (SendSummary sent failed)))"

text \<open>
  \<^verbatim>\<open>async function runCheckin(interaction)\<close> and the process-wide
  \<open>cachedCheckinNumber\<close>, a number or \<open>null\<close>.

  \<open>beforeNumbering\<close> is the part of the command before the test
  \<^verbatim>\<open>if (cachedCheckinNumber === null)\<close>: it ends the command (a thrown error, or the
  reply that there are no team channels) or yields the check-in template.
  \<open>incrementCounter\<close> is \<^verbatim>\<open>cachedCheckinNumber += 1\<close>, an addition of doubles.
  \<open>checkinMessageFor\<close> is
  \<^verbatim>\<open>CHECKIN_MESSAGES[(checkinNumber - 1) % CHECKIN_MESSAGES.length]\<close>, which is
  \<open>undefined\<close> (here \<open>None\<close>) when the index is not one of the table, and then enters
  the template as the text \<open>undefined\<close>. \<open>numberAndSend\<close> is the command from
  \<^verbatim>\<open>cachedCheckinNumber += 1\<close> to its end, given the value the counter holds at
  that statement; it returns what the command did and the value it leaves in the
  counter. \<open>checkinSummaryText\<close> is the summary the command posts as its reply.
\<close>

datatype CheckinResult =
    Threw
  | NeverReturns
  | CheckinNoTeamChannels
  | CheckinSummary enat "jsstring list" "jsstring list"

definition beforeNumbering :: "World \<Rightarrow> CheckinResult + jsstring" where
  "beforeNumbering w =
     (case checkinTemplate w of
        None \<Rightarrow> Inl Threw
      | Some template \<Rightarrow>
          if \<not> guildAvailable w then Inl Threw
          else if \<not> controlIsText w then Inl Threw
          else if length (getTeamChannels (channelsCache w)) = 0 then Inl CheckinNoTeamChannels
          else Inr template)"

definition incrementCounter :: "enat \<Rightarrow> enat" where
  "incrementCounter x = (case x of \<infinity> \<Rightarrow> \<infinity> | enat n \<Rightarrow> doubleOfNat (n + 1))"

definition checkinMessageFor :: "enat \<Rightarrow> jsstring option" where
  "checkinMessageFor checkinNumber =
     (case checkinNumber of
        \<infinity> \<Rightarrow> None
      | enat n \<Rightarrow>
          if n = 0 then None
          else Some (CHECKIN_MESSAGES ! (roundDouble (n - 1) mod length CHECKIN_MESSAGES)))"

definition numberAndSend :: "World \<Rightarrow> jsstring \<Rightarrow> enat \<Rightarrow> CheckinResult \<times> enat option" where
  "numberAndSend w template counter =
     (let checkinNumber = incrementCounter counter;
          checkinMessage = (case checkinMessageFor checkinNumber of
                              Some m \<Rightarrow> m
                            | None \<Rightarrow> js ''undefined'')
      in case renderTemplate template
                [(js ''checkin_number'', numberToString checkinNumber),
                 (js ''checkin_message'', checkinMessage),
                 (js ''extra_prompt_block'', extraPromptBlock w)] of
           Inl e \<Rightarrow> (Threw, Some checkinNumber)
         | Inr checkinBody \<Rightarrow>
             (case sendLoop (delivers w) (getTeamChannels (channelsCache w)) ([], []) of
                (sent, failed) \<Rightarrow>
                  (CheckinSummary checkinNumber sent failed, Some checkinNumber)))"

definition checkinSummaryText :: "enat \<Rightarrow> jsstring list \<Rightarrow> jsstring list \<Rightarrow> nat \<Rightarrow> jsstring" where
  "checkinSummaryText checkinNumber sent failed teamChannels =
     joinWith [10]
       [js ''Check-in #'' @ numberToString checkinNumber @ js '' sent.'',
        js ''Delivered: '' @ numberToString (enat (length sent)) @ js ''/'' @
          numberToString (enat teamChannels),
        if length failed > 0 then js ''Failed: '' @ joinWith (js '', '') failed
        else js ''Failed: none'']"

text \<open>
  A command that no other command overlaps, as a function of the world and of the
  counter: the scan of the control channel, when the counter is \<open>null\<close>, is awaited
  and its result assigned before anything else touches the counter.
\<close>

definition runCheckin :: "World \<Rightarrow> enat option \<Rightarrow> CheckinResult \<times> enat option" where
  "runCheckin w cached =
     (case beforeNumbering w of
        Inl ended \<Rightarrow> (ended, cached)
      | Inr template \<Rightarrow>
          (case (case cached of
                   None \<Rightarrow> detectLastCheckinNumber (controlMessages w) (botUser w)
                 | Some n \<Rightarrow> Some n) of
             None \<Rightarrow> (NeverReturns, cached)
           | Some counter \<Rightarrow> numberAndSend w template counter))"






text \<open>
  The loop of \<open>buildStatusPrompt\<close> over the team channels,
  \<^verbatim>\<open>for (const channel of teamChannels) { ...; teamTranscripts.push(renderTranscriptForPrompt(transcript)); }\<close>,
  \<open>rendered channel\<close> standing for the rendered transcript of a channel.
\<close>

definition teamTranscripts :: "(Channel \<Rightarrow> jsstring) \<Rightarrow> Channel list \<Rightarrow> jsstring list" where
  "teamTranscripts rendered cache = map rendered (getTeamChannels cache)"

text \<open>Example guilds.\<close>

definition textChannel :: "string \<Rightarrow> string \<Rightarrow> Channel" where
  "textChannel i n = \<lparr> chId = js i, chName = js n, chType = GuildText \<rparr>"

definition guildCache :: "Channel list" where
  "guildCache =
     [textChannel ''12'' ''team-2'', textChannel ''10'' ''general'', textChannel ''19'' ''team-10'',
      textChannel ''11'' ''team-1'', \<lparr> chId = js ''13'', chName = js ''team-3'', chType = OtherChannelType \<rparr>,
      textChannel ''14'' ''team-4'']"

text \<open>
  The delivery outcome over the targeted channels: each target adds its name to exactly
  one list, in target order, and the two lists are disjoint as sets of names when the
  targets bear distinct names.
\<close>

definition deliveryPartition ::
  "(Channel \<Rightarrow> bool) \<Rightarrow> Channel list \<Rightarrow> jsstring list \<Rightarrow> jsstring list \<Rightarrow> bool" where
  "deliveryPartition d targets sent failed =
     (sent = map chName (filter d targets) \<and>
      failed = map chName (filter (\<lambda>c. \<not> d c) targets) \<and>
      mset sent + mset failed = mset (map chName targets) \<and>
      (distinct (map chName targets) \<longrightarrow>
         set sent \<inter> set failed = {} \<and> set sent \<union> set failed = set (map chName targets)))"



definition counterBase :: "World \<Rightarrow> enat option \<Rightarrow> enat" where
  "counterBase w cached =
     (case cached of
        Some n \<Rightarrow> n
      | None \<Rightarrow> (case detectLastCheckinNumber (controlMessages w) (botUser w) of
                   Some r \<Rightarrow> r
                 | None \<Rightarrow> 0))"


definition teamWorld :: World where
  "teamWorld =
     \<lparr> checkinTemplate = Some (js ''[POLY_CHECKIN #{{checkin_number}}] {{checkin_message}}{{extra_prompt_block}}''),
       guildAvailable = True,
       controlIsText = True,
       channelsCache = guildCache,
       controlMessages = controlStore,
       botUser = js ''bot'',
       extraPromptBlock = [],
       delivers = (\<lambda>c. chId c = js ''11'') \<rparr>"

definition twinWorld :: World where
  "twinWorld =
     teamWorld \<lparr> channelsCache := [textChannel ''21'' ''team-1'', textChannel ''22'' ''team-1''],
                 delivers := (\<lambda>c. chId c = js ''21'') \<rparr>"

text \<open>
  Two more control channels. The first holds one message of the bot, the summary that
  \<open>runCheckin\<close> posted as its reply to check-in 5, delivered on two of two team
  channels; the second holds a marker of the bot with the number \<open>2 ^ 53\<close>.
\<close>

definition summaryStore :: MessageStore where
  "summaryStore before =
     (if before = None
      then [\<lparr> rawId = js ''1'', rawAuthorId = js ''bot'', rawDisplayName = None,
               rawUsername = js ''bot'', rawCreatedAt = 10,
               rawContent = checkinSummaryText 5 [js ''team-1'', js ''team-2''] [] 2 \<rparr>]
      else [])"



section \<open>Splitting a text into chunks\<close>

text \<open>\<^verbatim>\<open>text.split("\n")\<close>: the lines of a text, at least one.\<close>

fun splitLines :: "jsstring \<Rightarrow> jsstring list" where
  "splitLines [] = [[]]"
| "splitLines (c # cs) =
     (if c = 10 then [] # splitLines cs
      else (case splitLines cs of
              [] \<Rightarrow> [[c]]
            | l # ls \<Rightarrow> (c # l) # ls))"

text \<open>
  The inner loop that cuts a line longer than \<open>maxLen\<close>:
  \<^verbatim>\<open>while (start < line.length) { parts.push(line.slice(start, start + maxLen)); start += maxLen; }\<close>.
  With \<open>maxLen = 0\<close> it never ends, which is the result \<open>None\<close>.
\<close>

function sliceLoop :: "nat \<Rightarrow> jsstring \<Rightarrow> nat \<Rightarrow> jsstring list \<Rightarrow> jsstring list option" where
  "sliceLoop maxLen line start parts =
     (if start < length line
      then (if maxLen = 0 then None
            else sliceLoop maxLen line (start + maxLen) (parts @ [take maxLen (drop start line)]))
      else Some parts)"
  by pat_completeness auto
termination
  by (relation "measure (\<lambda>(maxLen, line, start, parts). length line - start)") auto

declare sliceLoop.simps [simp del]

text \<open>
  The loop over the lines, on the state \<open>(parts, current)\<close>, and
  \<^verbatim>\<open>function splitForDiscord(text: string, maxLen = 1900): string[]\<close>; every call of
  the source leaves \<open>maxLen\<close> at its default.
\<close>

fun lineLoop ::
  "nat \<Rightarrow> jsstring list \<Rightarrow> jsstring list \<times> jsstring \<Rightarrow> (jsstring list \<times> jsstring) option" where
  "lineLoop maxLen [] (parts, current) = Some (parts, current)"
| "lineLoop maxLen (line # lines) (parts, current) =
     (if length (current @ [10] @ line) > maxLen
      then (let flushed = (if length current > 0 then parts @ [current] else parts)
            in if length line > maxLen
               then (case sliceLoop maxLen line 0 flushed of
                       None \<Rightarrow> None
                     | Some sliced \<Rightarrow> lineLoop maxLen lines (sliced, []))
               else lineLoop maxLen lines (flushed, line))
      else lineLoop maxLen lines
             (parts, if length current = 0 then line else current @ [10] @ line))"

definition splitForDiscord :: "jsstring \<Rightarrow> nat \<Rightarrow> jsstring list option" where
  "splitForDiscord text maxLen =
     (if length text \<le> maxLen then Some [text]
      else (case lineLoop maxLen (splitLines text) ([], []) of
              None \<Rightarrow> None
            | Some (parts, current) \<Rightarrow>
                Some (if length current > 0 then parts @ [current] else parts)))"

text \<open>
  \<open>rejoins chunks text\<close>: the text is the chunks in their order, two consecutive
  chunks being separated by nothing (the inside of a line cut by length) or by one line
  break (a line boundary).
\<close>

inductive rejoins :: "jsstring list \<Rightarrow> jsstring \<Rightarrow> bool" where
  single: "rejoins [c] c"
| glued: "rejoins (d # cs) t \<Longrightarrow> rejoins (c # d # cs) (c @ t)"
| broken: "rejoins (d # cs) t \<Longrightarrow> rejoins (c # d # cs) (c @ 10 # t)"

text \<open>
  For the proofs: the pieces of a line cut every \<open>maxLen\<close> units, the chunks the loop
  emits from a list of lines and a current chunk (the final flush included), and the
  lines joined by line breaks.
\<close>

function chop :: "nat \<Rightarrow> jsstring \<Rightarrow> jsstring list" where
  "chop maxLen s = (if s = [] \<or> maxLen = 0 then [] else take maxLen s # chop maxLen (drop maxLen s))"
  by pat_completeness auto
termination
  by (relation "measure (\<lambda>(maxLen, s). length s)") auto

declare chop.simps [simp del]

fun emitted :: "nat \<Rightarrow> jsstring list \<Rightarrow> jsstring \<Rightarrow> jsstring list" where
  "emitted maxLen [] current = (if current = [] then [] else [current])"
| "emitted maxLen (line # lines) current =
     (if length current + 1 + length line > maxLen
      then (if current = [] then [] else [current]) @
           (if length line > maxLen then chop maxLen line @ emitted maxLen lines []
            else emitted maxLen lines line)
      else emitted maxLen lines (if current = [] then line else current @ 10 # line))"

fun joinLines :: "jsstring list \<Rightarrow> jsstring" where
  "joinLines [] = []"
| "joinLines (l # ls) = l @ concat (map ((#) 10) ls)"

text \<open>
  How a sequence of chunks sits in the lines of a text: a chunk is a run of whole
  consecutive lines joined by line breaks, or one of the pieces of a single line longer
  than \<open>maxLen\<close>, cut every \<open>maxLen\<close> units. \<open>chunksOf\<close> gives the chunks of a group
  and \<open>linesOf\<close> its lines.
\<close>

datatype Group = WholeLines "jsstring list" | LongLine jsstring

fun chunksOf :: "nat \<Rightarrow> Group \<Rightarrow> jsstring list" where
  "chunksOf maxLen (WholeLines ls) = [joinLines ls]"
| "chunksOf maxLen (LongLine l) = chop maxLen l"

fun linesOf :: "Group \<Rightarrow> jsstring list" where
  "linesOf (WholeLines ls) = ls"
| "linesOf (LongLine l) = [l]"

fun wellGrouped :: "nat \<Rightarrow> Group \<Rightarrow> bool" where
  "wellGrouped maxLen (WholeLines ls) = (ls \<noteq> [] \<and> length (joinLines ls) \<le> maxLen)"
| "wellGrouped maxLen (LongLine l) = (maxLen < length l)"

text \<open>
  The loop keeps no chunk apart from the string \<open>current\<close>, whose empty value stands
  for no chunk: an empty line that becomes the value of \<open>current\<close> is forgotten. This
  happens when the empty line is met while \<open>current\<close> is empty, or is so long (of
  length \<open>maxLen\<close>) that the line break does not fit any more. \<open>dropsEmptyLine\<close> follows
  the loop and says whether it happens; \<open>grouping\<close> follows the loop and gives the groups
  it forms, \<open>run\<close> being the lines that make up \<open>current\<close>.
\<close>

fun dropsEmptyLine :: "nat \<Rightarrow> jsstring list \<Rightarrow> jsstring \<Rightarrow> bool" where
  "dropsEmptyLine maxLen [] current = False"
| "dropsEmptyLine maxLen (line # lines) current =
     (if length current + 1 + length line > maxLen
      then (if length line > maxLen then dropsEmptyLine maxLen lines []
            else line = [] \<or> dropsEmptyLine maxLen lines line)
      else (if current = [] then line = [] \<or> dropsEmptyLine maxLen lines line
            else dropsEmptyLine maxLen lines (current @ 10 # line)))"

fun grouping :: "nat \<Rightarrow> jsstring list \<Rightarrow> jsstring list \<Rightarrow> Group list" where
  "grouping maxLen [] run = (if run = [] then [] else [WholeLines run])"
| "grouping maxLen (line # lines) run =
     (if length (joinLines run) + 1 + length line > maxLen
      then (if run = [] then [] else [WholeLines run]) @
           (if length line > maxLen then LongLine line # grouping maxLen lines []
            else grouping maxLen lines (if line = [] then [] else [line]))
      else grouping maxLen lines
             (if run = [] then (if line = [] then [] else [line]) else run @ [line]))"

section \<open>Properties of the decision parser\<close>

lemma parse_unparseable:
  "unparseable raw \<Longrightarrow>
     parseStandbyDecision raw =
       ESCALATE (js ''Could not parse assistant decision.'') (take 500 (trim raw))"
  unfolding unparseable_def parseStandbyDecision_def Let_def
  by (auto split: option.splits)

lemma parse_reply_nonempty:
  "parseStandbyDecision raw = REPLY m \<Longrightarrow> m \<noteq> []"
  unfolding parseStandbyDecision_def Let_def
  by (auto split: option.splits if_splits)

text \<open>
  Claim C2. The parser is a total function into the two-variant decision type: on every
  input it yields either a reply with a non-empty message or an escalation, and no step
  of it can throw. On an unparseable input (no usable \<open>ACTION:\<close> token, or \<open>REPLY\<close>
  without a usable \<open>MESSAGE:\<close> payload) the result is the escalation with the
  parse-failure reason whose draft is the first 500 code units of the trimmed input.
\<close>

theorem parseStandbyDecision_total:
  "(case parseStandbyDecision raw of REPLY m \<Rightarrow> m \<noteq> [] | ESCALATE r d \<Rightarrow> True) \<and>
   (unparseable raw \<longrightarrow>
      parseStandbyDecision raw =
        ESCALATE (js ''Could not parse assistant decision.'') (take 500 (trim raw)) \<and>
      length (draft (parseStandbyDecision raw)) = min 500 (length (trim raw)))"
proof -
  have "m \<noteq> []" if "parseStandbyDecision raw = REPLY m" for m
    using that by (rule parse_reply_nonempty)
  then have wf: "case parseStandbyDecision raw of REPLY m \<Rightarrow> m \<noteq> [] | ESCALATE r d \<Rightarrow> True"
    by (cases "parseStandbyDecision raw") simp_all
  have "parseStandbyDecision raw =
          ESCALATE (js ''Could not parse assistant decision.'') (take 500 (trim raw))"
    if "unparseable raw"
    using that by (rule parse_unparseable)
  then show ?thesis
    using wf by auto
qed

theorem parseStandbyDecision_total_witness:
  "unparseable (js ''I think escalate? not sure'') \<and>
   parseStandbyDecision (js ''I think escalate? not sure'') =
     ESCALATE (js ''Could not parse assistant decision.'') (js ''I think escalate? not sure'')"
  using parseStandbyDecision_total [of "js ''I think escalate? not sure''"]
  by (simp add: unparseable_def trim_def trimStart_def trimEnd_def isWhiteSpace_def
      actionAt_def keywordAt_def canonicalize_def)

subsection \<open>Parsing the two text forms\<close>

lemma starWS_dropWhile:
  "k (dropWhile isWhiteSpace s) = Some v \<Longrightarrow> starWS k s = Some v"
  by (induction s) auto

lemma starWS_Some [simp]: "starWS Some s = Some (dropWhile isWhiteSpace s)"
  by (rule starWS_dropWhile) simp

lemma trimEnd_append_keep:
  "a \<noteq> [] \<Longrightarrow> \<not> isWhiteSpace (last a) \<Longrightarrow> trimEnd (a @ b) = a @ trimEnd b"
  unfolding trimEnd_def
  by (cases a rule: rev_cases) (auto simp add: dropWhile_append)

lemma trimEnd_Cons:
  "trimEnd (c # s) = (if isWhiteSpace c \<and> trimEnd s = [] then [] else c # trimEnd s)"
  unfolding trimEnd_def by (auto simp add: dropWhile_append)

lemma trimStart_trimEnd: "trimStart (trimEnd s) = trimEnd (trimStart s)"
proof (induction s)
  case Nil
  show ?case by (simp add: trimStart_def trimEnd_def)
next
  case (Cons c s)
  show ?case
  proof (cases "isWhiteSpace c")
    case True
    then show ?thesis
      using Cons by (auto simp add: trimStart_def trimEnd_Cons)
  next
    case False
    then show ?thesis
      by (simp add: trimStart_def trimEnd_Cons)
  qed
qed

lemma trimStart_idem: "trimStart (trimStart s) = trimStart s"
  unfolding trimStart_def by (induction s) auto

lemma trim_capture:
  "isWhiteSpace c \<Longrightarrow> trim (dropWhile isWhiteSpace (trimEnd (c # d))) = trim d"
proof -
  assume c: "isWhiteSpace c"
  have "dropWhile isWhiteSpace (trimEnd (c # d)) = trimStart (trimEnd (c # d))"
    by (simp add: trimStart_def)
  also have "\<dots> = trimEnd (trimStart (c # d))"
    by (rule trimStart_trimEnd)
  also have "\<dots> = trim d"
    using c by (simp add: trim_def trimStart_def)
  finally have "dropWhile isWhiteSpace (trimEnd (c # d)) = trim d" .
  moreover have "trimEnd (trimEnd s) = trimEnd s" for s
    unfolding trimEnd_def by (metis dropWhile_idem rev_rev_ident)
  ultimately show ?thesis
    by (simp add: trim_def trimStart_trimEnd[symmetric] trimStart_idem)
qed

lemma trim_nonempty_starts:
  assumes "trim s \<noteq> []"
  shows "trimStart s \<noteq> [] \<and> \<not> isWhiteSpace (hd (trimStart s))"
proof -
  have ne: "dropWhile isWhiteSpace s \<noteq> []"
    using assms by (cases "dropWhile isWhiteSpace s = []") (simp_all add: trim_def trimEnd_def trimStart_def)
  then show ?thesis
    unfolding trimStart_def using hd_dropWhile [OF ne] by simp
qed

lemma litCI_append_None:
  "litCI tok u = None \<Longrightarrow> \<forall>p\<in>set tok. canonicalize p \<noteq> canonicalize x \<Longrightarrow>
     litCI tok (u @ x # rest) = None"
  by (induction tok u rule: litCI.induct) (auto split: if_splits)

lemma regexSearch_skip:
  assumes "\<not> containsCI tok r" and "\<forall>p\<in>set tok. canonicalize p \<noteq> canonicalize x"
    and "\<And>t. litCI tok t = None \<Longrightarrow> m t = None"
  shows "regexSearch m (r @ x # rest) = regexSearch m (x # rest)"
  using assms(1)
proof (induction r)
  case Nil
  show ?case by simp
next
  case (Cons c r)
  then have "litCI tok (c # r) = None" and "\<not> containsCI tok r"
    by auto
  then have "m ((c # r) @ x # rest) = None"
    using assms(2,3) litCI_append_None by blast
  then show ?case
    using Cons \<open>\<not> containsCI tok r\<close> by simp
qed

lemma draftAt_None: "litCI (js ''DRAFT:'') t = None \<Longrightarrow> draftAt t = None"
  by (simp add: draftAt_def)

lemma takeWhile_line: "10 \<notin> set r \<Longrightarrow> takeWhile (\<lambda>c. c \<noteq> 10) (r @ 10 # rest) = r"
  by (induction r) auto

lemma parse_reply_text:
  assumes "trim s \<noteq> []"
  shows "parseStandbyDecision (js ''ACTION: REPLY\<newline>MESSAGE: '' @ s) = REPLY (trim s)"
proof -
  let ?n = "js ''ACTION: REPLY\<newline>MESSAGE:'' @ trimEnd (32 # s)"
  have ws: "isWhiteSpace 32" by (simp add: isWhiteSpace_def)
  have n: "trim (js ''ACTION: REPLY\<newline>MESSAGE: '' @ s) = ?n"
    using trimEnd_append_keep [of "js ''ACTION: REPLY\<newline>MESSAGE:''" "32 # s"]
    by (simp add: trim_def trimStart_def isWhiteSpace_def)
  have a: "regexSearch actionAt ?n = Some (js ''REPLY'')"
    by (simp add: actionAt_def keywordAt_def canonicalize_def isWhiteSpace_def)
  have m: "regexSearch messageAt ?n = Some (dropWhile isWhiteSpace (trimEnd (32 # s)))"
    by (simp add: messageAt_def canonicalize_def)
  show ?thesis
    unfolding parseStandbyDecision_def n Let_def a m
    using assms by (simp add: toUpperCase_def canonicalize_def trim_capture [OF ws])
qed

lemma dropWhile_append_ne:
  "dropWhile P xs \<noteq> [] \<Longrightarrow> dropWhile P (xs @ ys) = dropWhile P xs @ ys"
  by (induction xs) auto

lemma trim_trimStart: "trim (trimStart s) = trim s"
  by (simp add: trim_def trimStart_idem)

lemma parse_escalate_text:
  assumes nl: "10 \<notin> set r" and ne: "trim r \<noteq> []"
    and nd: "\<not> containsCI (js ''DRAFT:'') r"
  shows "parseStandbyDecision
           (js ''ACTION: ESCALATE\<newline>REASON: '' @ r @ js ''\<newline>DRAFT: '' @ d) =
         ESCALATE (trim r) (trim d)"
proof -
  let ?tail = "js ''DRAFT:'' @ trimEnd (32 # d)"
  let ?n = "js ''ACTION: ESCALATE\<newline>REASON: '' @ r @ 10 # ?tail"
  have ws: "isWhiteSpace 32" by (simp add: isWhiteSpace_def)
  have n: "trim (js ''ACTION: ESCALATE\<newline>REASON: '' @ r @ js ''\<newline>DRAFT: '' @ d) = ?n"
    using trimEnd_append_keep
      [of "js ''ACTION: ESCALATE\<newline>REASON: '' @ r @ js ''\<newline>DRAFT:''" "32 # d"]
    by (simp add: trim_def trimStart_def isWhiteSpace_def)
  have a: "regexSearch actionAt ?n = Some (js ''ESCALATE'')"
    by (simp add: actionAt_def keywordAt_def canonicalize_def isWhiteSpace_def)
  have r0: "trimStart r \<noteq> []" and r1: "\<not> isWhiteSpace (hd (trimStart r))"
    using trim_nonempty_starts [OF ne] by simp_all
  have "dropWhile isWhiteSpace (32 # r @ 10 # ?tail) = trimStart r @ 10 # ?tail"
    using r0 ws dropWhile_append_ne [of isWhiteSpace r "10 # ?tail"] by (simp add: trimStart_def)
  moreover have "10 \<notin> set (trimStart r)"
    using nl set_dropWhileD unfolding trimStart_def by fastforce
  ultimately have "lineAt (dropWhile isWhiteSpace (32 # r @ 10 # ?tail)) = Some (trimStart r)"
    using r0 by (simp add: lineAt_def takeWhile_line)
  then have "starWS lineAt (32 # r @ 10 # ?tail) = Some (trimStart r)"
    by (rule starWS_dropWhile)
  then have rs: "regexSearch reasonAt ?n = Some (trimStart r)"
    by (simp add: reasonAt_def canonicalize_def)
  have "regexSearch draftAt (r @ 10 # ?tail) = regexSearch draftAt (10 # ?tail)"
    by (rule regexSearch_skip [OF nd _ draftAt_None]) (simp add: canonicalize_def)
  then have ds: "regexSearch draftAt ?n = Some (dropWhile isWhiteSpace (trimEnd (32 # d)))"
    by (simp add: draftAt_def canonicalize_def)
  show ?thesis
    unfolding parseStandbyDecision_def n Let_def a rs ds
    by (simp add: toUpperCase_def canonicalize_def trim_capture [OF ws] trim_trimStart)
qed

text \<open>
  Claim C7, as stated, fails: the parser trims what it captures, so a message with
  white space at either end does not come back unchanged, and an empty reason lets the
  \<open>REASON:\<close> pattern run over the line break and capture the \<open>DRAFT:\<close> line.
\<close>

theorem parse_roundtrip_counterexample:
  "js '' ok'' \<noteq> [] \<and>
   parseStandbyDecision (js ''ACTION: REPLY\<newline>MESSAGE: '' @ js '' ok'') = REPLY (js ''ok'') \<and>
   parseStandbyDecision (js ''ACTION: REPLY\<newline>MESSAGE: '' @ js '' ok'') \<noteq> REPLY (js '' ok'') \<and>
   parseStandbyDecision (js ''ACTION: ESCALATE\<newline>REASON: '' @ [] @ js ''\<newline>DRAFT: '' @ js ''d'')
     = ESCALATE (js ''DRAFT: d'') (js ''d'') \<and>
   parseStandbyDecision (js ''ACTION: ESCALATE\<newline>REASON: '' @ [] @ js ''\<newline>DRAFT: '' @ js ''d'')
     \<noteq> ESCALATE [] (js ''d'')"
  by (simp add: parseStandbyDecision_def trim_def trimStart_def trimEnd_def isWhiteSpace_def
      actionAt_def keywordAt_def messageAt_def reasonAt_def draftAt_def lineAt_def
      canonicalize_def toUpperCase_def)

text \<open>
  Claim C7, amended. For every \<open>s\<close> whose trimmed form is not empty, the text
  \<open>ACTION: REPLY\<close>, line break, \<open>MESSAGE: \<close> followed by \<open>s\<close> parses to the reply with
  message \<open>trim s\<close> (so to \<open>s\<close> itself when \<open>s\<close> has no white space at its ends). For every
  \<open>r\<close> without a line feed whose trimmed form is not empty and which does not contain
  \<open>DRAFT:\<close> in any letter case, and every \<open>d\<close>, the text \<open>ACTION: ESCALATE\<close>, line
  break, \<open>REASON: r\<close>, line break, \<open>DRAFT: d\<close> parses to the escalation with reason
  \<open>trim r\<close> and draft \<open>trim d\<close>.
\<close>

theorem parse_roundtrip_trimmed:
  "(trim s \<noteq> [] \<longrightarrow>
      parseStandbyDecision (js ''ACTION: REPLY\<newline>MESSAGE: '' @ s) = REPLY (trim s)) \<and>
   (10 \<notin> set r \<and> trim r \<noteq> [] \<and> \<not> containsCI (js ''DRAFT:'') r \<longrightarrow>
      parseStandbyDecision
        (js ''ACTION: ESCALATE\<newline>REASON: '' @ r @ js ''\<newline>DRAFT: '' @ d) =
      ESCALATE (trim r) (trim d))"
  using parse_reply_text [of s] parse_escalate_text [of r d] by blast

theorem parse_roundtrip_trimmed_witness:
  "trim (js ''We are on track.'') \<noteq> [] \<and>
   parseStandbyDecision (js ''ACTION: REPLY\<newline>MESSAGE: We are on track.'') =
     REPLY (js ''We are on track.'') \<and>
   10 \<notin> set (js ''budget question'') \<and> trim (js ''budget question'') \<noteq> [] \<and>
   \<not> containsCI (js ''DRAFT:'') (js ''budget question'') \<and>
   parseStandbyDecision
     (js ''ACTION: ESCALATE\<newline>REASON: budget question\<newline>DRAFT: Ask the organizer.'') =
     ESCALATE (js ''budget question'') (js ''Ask the organizer.'')"
  using parse_roundtrip_trimmed
    [of "js ''We are on track.''" "js ''budget question''" "js ''Ask the organizer.''"]
  by (simp add: trim_def trimStart_def trimEnd_def isWhiteSpace_def canonicalize_def)

section \<open>Properties of the numbers\<close>

lemma ulpOf_small: "n < 2 ^ 53 \<Longrightarrow> ulpOf n = 1"
  by (simp add: ulpOf.simps [of n])

lemma roundDouble_exact: "n < 2 ^ 53 \<Longrightarrow> roundDouble n = n"
  by (simp add: roundDouble_def ulpOf_small)

lemma ulpOf_large: "2 ^ 53 \<le> m \<Longrightarrow> 2 \<le> ulpOf m \<and> 2 ^ 52 * ulpOf m \<le> m"
proof (induction m rule: ulpOf.induct)
  case (1 n)
  have u: "ulpOf n = 2 * ulpOf (n div 2)"
    using "1.prems" by (subst ulpOf.simps) simp
  show ?case
  proof (cases "n div 2 < 2 ^ 53")
    case True
    then have "ulpOf (n div 2) = 1" by (rule ulpOf_small)
    then show ?thesis using u "1.prems" by simp
  next
    case False
    then have ih: "2 \<le> ulpOf (n div 2) \<and> 2 ^ 52 * ulpOf (n div 2) \<le> n div 2"
      using "1.prems" by (intro "1.IH") simp_all
    then have "2 * (2 ^ 52 * ulpOf (n div 2)) \<le> 2 * (n div 2)"
      by simp
    moreover have "2 * (n div 2) \<le> n"
      by simp
    ultimately have "2 ^ 52 * (2 * ulpOf (n div 2)) \<le> n"
      by linarith
    then show ?thesis using u ih by simp
  qed
qed

lemma roundDouble_large:
  assumes "2 ^ 53 \<le> m"
  shows "2 ^ 53 \<le> roundDouble m"
proof -
  from ulpOf_large [OF assms] have u: "2 \<le> ulpOf m" and b: "2 ^ 52 * ulpOf m \<le> m"
    by simp_all
  have "2 ^ 52 \<le> m div ulpOf m"
    using b u by (simp add: less_eq_div_iff_mult_less_eq)
  then have "2 ^ 52 * ulpOf m \<le> (m div ulpOf m) * ulpOf m"
    by simp
  moreover have "(2::nat) ^ 53 \<le> 2 ^ 52 * ulpOf m"
    using u by simp
  moreover have "(m div ulpOf m) * ulpOf m \<le> roundDouble m"
    by (simp add: roundDouble_def Let_def)
  ultimately show ?thesis by linarith
qed

lemma shortestFrom_exact:
  assumes "n < 2 ^ 53"
  shows "shortestFrom n j = n"
proof (induction j)
  case 0
  show ?case by (subst shortestFrom.simps) simp
next
  case (Suc j)
  let ?p = "10 ^ Suc j :: nat"
  let ?lo = "(n div ?p) * ?p"
  have lo: "?lo \<le> n" by simp
  then have "?lo < 2 ^ 53"
    using assms by (rule le_less_trans)
  then have "roundDouble ?lo = ?lo"
    by (rule roundDouble_exact)
  then have okLo: "(roundDouble ?lo = n) = (?lo = n)"
    by simp
  have pos: "0 < ?p" by simp
  have hi: "n < ?lo + ?p"
    using div_mult_mod_eq [of n ?p] mod_less_divisor [OF pos, of n] by linarith
  have okHi: "roundDouble (?lo + ?p) \<noteq> n"
  proof (cases "?lo + ?p < 2 ^ 53")
    case True
    then have "roundDouble (?lo + ?p) = ?lo + ?p" by (rule roundDouble_exact)
    then show ?thesis using hi by linarith
  next
    case False
    then have "2 ^ 53 \<le> ?lo + ?p" by simp
    then have "2 ^ 53 \<le> roundDouble (?lo + ?p)" by (rule roundDouble_large)
    then show ?thesis using assms by linarith
  qed
  show ?case
    by (subst shortestFrom.simps) (simp add: Let_def okLo okHi Suc del: power_Suc)
qed

lemma decimal_digit: "n < 10 \<Longrightarrow> decimal n = [48 + n]"
  by (subst decimal.simps) simp

lemma numberToString_exact:
  assumes "n < 2 ^ 53"
  shows "numberToString (enat n) = decimal n"
proof -
  have "(2::nat) ^ 53 < 10 ^ 21" by simp
  with assms have "n < 10 ^ 21" by (rule less_trans)
  then show ?thesis
    by (simp add: numberToString_def shortestFrom_exact [OF assms])
qed




lemma doubleOfNat_exact: "n < 2 ^ 53 \<Longrightarrow> doubleOfNat n = enat n"
proof -
  assume a: "n < 2 ^ 53"
  have "(2::nat) ^ 53 < 2 ^ 1024" by simp
  with a have "n < 2 ^ 1024" by (rule less_trans)
  with a show ?thesis by (simp add: doubleOfNat_def roundDouble_exact)
qed

lemmas double_eval =
  Number_def decimalValue_def doubleOfNat_def roundDouble_def ulpOf.simps Let_def
  numeral_eq_enat one_enat_def zero_enat_def

lemma Number_rounds:
  "Number (js ''9007199254740992'') = 9007199254740992 \<and>
   Number (js ''9007199254740993'') = 9007199254740992 \<and>
   Number (js ''9007199254740995'') = 9007199254740996"
  by (simp add: double_eval)




section \<open>Properties of the transcript builder\<close>

lemma fetchLoop_done:
  "fetch before = [] \<Longrightarrow> fetchLoop fetch before all = Some all"
  by (subst fetchLoop.simps) simp

lemma fetchLoop_step:
  "fetch before \<noteq> [] \<Longrightarrow>
     fetchLoop fetch before all =
       fetchLoop fetch (Some (rawId (last (fetch before)))) (all @ map toTranscriptMessage (fetch before))"
  by (subst fetchLoop.simps) (simp add: Let_def)

lemma fetchLoop_pages:
  "fetch (cursorFrom fetch before n) = [] \<Longrightarrow>
     fetchLoop fetch before all = Some (all @ map toTranscriptMessage (pagesFrom fetch before n))"
proof (induction n arbitrary: before all)
  case 0
  then show ?case by (simp add: fetchLoop_done)
next
  case (Suc n)
  show ?case
  proof (cases "fetch before = []")
    case True
    then show ?thesis by (simp add: fetchLoop_done)
  next
    case False
    from Suc.prems have "fetch (cursorFrom fetch (Some (rawId (last (fetch before)))) n) = []"
      by simp
    from Suc.IH [OF this] show ?thesis
      using False by (simp add: fetchLoop_step)
  qed
qed

lemma fetchAllMessages_pages:
  "fetch (cursorFrom fetch None n) = [] \<Longrightarrow>
     fetchAllMessages fetch =
       Some (sort_key createdAt (map toTranscriptMessage (pagesFrom fetch None n)))"
  using fetchLoop_pages [of fetch None n "[]"] by (simp add: fetchAllMessages_def)

lemma buildTranscript_pages:
  assumes "fetch (cursorFrom fetch None n) = []"
  shows "buildTranscript cid cname fetch uid =
           Some \<lparr> channelId = cid, channelName = cname,
                  messages = sort_key createdAt (map toTranscriptMessage (pagesFrom fetch None n)),
                  latestCheckinNumber =
                    fst (scanCheckins uid
                           (sort_key createdAt (map toTranscriptMessage (pagesFrom fetch None n)))
                           (None, None)),
                  latestCheckinTimestamp =
                    snd (scanCheckins uid
                           (sort_key createdAt (map toTranscriptMessage (pagesFrom fetch None n)))
                           (None, None)) \<rparr>"
  using fetchAllMessages_pages [of fetch n] assms by (simp add: buildTranscript_def Let_def)

lemmas transcript_eval =
  fetchAllMessages_def fetchLoop_done fetchLoop_step rawMsg_def toTranscriptMessage_def
  cleanContent_def trim_def trimStart_def trimEnd_def isWhiteSpace_def markerAt_def
  canonicalize_def isDigit_def double_eval

lemma filter_same_key:
  "distinct (map f xs) \<Longrightarrow> k \<in> set xs \<Longrightarrow> filter (\<lambda>x. f k = f x) xs = [k]"
proof (induction xs)
  case Nil
  then show ?case by simp
next
  case (Cons x xs)
  show ?case
  proof (cases "k = x")
    case True
    have "filter (\<lambda>y. f x = f y) xs = []"
      using Cons.prems(1) by (auto simp add: filter_empty_conv)
    then show ?thesis using True by simp
  next
    case False
    then have "k \<in> set xs" using Cons.prems(2) by simp
    moreover have "f x \<notin> f ` set xs" using Cons.prems(1) by simp
    then have "f k \<noteq> f x" using \<open>k \<in> set xs\<close> by (metis imageI)
    ultimately show ?thesis using Cons by simp
  qed
qed

lemma sort_key_same_mset:
  fixes f :: "'a \<Rightarrow> int"
  assumes "mset xs = mset ys" and "distinct (map f xs)"
  shows "sort_key f xs = sort_key f ys"
proof (rule properties_for_sort_key)
  show "mset (sort_key f ys) = mset xs"
    using assms(1) by simp
  show "sorted (map f (sort_key f ys))"
    by simp
  fix k
  assume "k \<in> set (sort_key f ys)"
  then have ky: "k \<in> set ys" by simp
  then have kx: "k \<in> set xs" using assms(1) by (metis mset_eq_setD)
  have "mset (map f (sort_key f ys)) = mset (map f xs)"
    using assms(1) by simp
  then have "distinct (map f (sort_key f ys))"
    using assms(2) by (metis mset_eq_imp_distinct_iff)
  then have "filter (\<lambda>x. f k = f x) (sort_key f ys) = [k]"
    using ky by (intro filter_same_key) simp_all
  moreover have "filter (\<lambda>x. f k = f x) xs = [k]"
    using assms(2) kx by (rule filter_same_key)
  ultimately show "filter (\<lambda>x. f k = f x) (sort_key f ys) = filter (\<lambda>x. f k = f x) xs"
    by simp
qed

lemma sorted_same_mset:
  fixes xs ys :: "int list"
  assumes "sorted xs" and "sorted ys" and "mset xs = mset ys"
  shows "xs = ys"
proof -
  have "sort ys = xs"
    using assms(1,3) by (intro properties_for_sort) simp_all
  moreover have "sort ys = ys"
    using assms(2) by (rule sorted_sort_id)
  ultimately show ?thesis by simp
qed

lemma createdAt_toTranscriptMessage: "map createdAt (map toTranscriptMessage ms) = map rawCreatedAt ms"
  by (simp add: toTranscriptMessage_def)

text \<open>
  Claim C8. When the store reaches an empty page, \<open>fetchAllMessages\<close> returns, and
  what it returns is the messages of the pages it was given, converted, in non-decreasing
  order of creation time (a stable sort of the messages in the order of their delivery);
  \<open>buildTranscript\<close> returns too, and its transcript carries that sequence with the
  identifier and the name of the channel. Whatever the pages and their order: a second
  store that delivers the same messages, on other pages or in another order, yields the same
  sequence of creation times, and the same transcript when no two messages bear the same
  creation time; and a store that delivers the same pages yields the same transcript, so
  that building a transcript twice over the same channel state gives the same output.
\<close>

theorem fetchAllMessages_sorted:
  assumes "fetch (cursorFrom fetch None n) = []"
  shows "fetchAllMessages fetch =
           Some (sort_key createdAt (map toTranscriptMessage (pagesFrom fetch None n))) \<and>
         sorted (map createdAt (sort_key createdAt (map toTranscriptMessage (pagesFrom fetch None n)))) \<and>
         mset (sort_key createdAt (map toTranscriptMessage (pagesFrom fetch None n))) =
           mset (map toTranscriptMessage (pagesFrom fetch None n)) \<and>
         map_option messages (buildTranscript cid cname fetch uid) = fetchAllMessages fetch \<and>
         map_option channelId (buildTranscript cid cname fetch uid) = Some cid \<and>
         map_option channelName (buildTranscript cid cname fetch uid) = Some cname \<and>
         (fetch' (cursorFrom fetch' None n') = [] \<and>
          mset (pagesFrom fetch' None n') = mset (pagesFrom fetch None n) \<longrightarrow>
            map_option (map createdAt) (fetchAllMessages fetch') =
              map_option (map createdAt) (fetchAllMessages fetch) \<and>
            (distinct (map rawCreatedAt (pagesFrom fetch None n)) \<longrightarrow>
               fetchAllMessages fetch' = fetchAllMessages fetch \<and>
               buildTranscript cid cname fetch' uid = buildTranscript cid cname fetch uid)) \<and>
         (fetch' (cursorFrom fetch' None n') = [] \<and>
          pagesFrom fetch' None n' = pagesFrom fetch None n \<longrightarrow>
            buildTranscript cid cname fetch' uid = buildTranscript cid cname fetch uid)"
proof -
  let ?raw = "pagesFrom fetch None n"
  let ?raw' = "pagesFrom fetch' None n'"
  let ?msgs = "sort_key createdAt (map toTranscriptMessage ?raw)"
  let ?msgs' = "sort_key createdAt (map toTranscriptMessage ?raw')"
  have f: "fetchAllMessages fetch = Some ?msgs"
    using assms by (rule fetchAllMessages_pages [of fetch n])
  note bt = buildTranscript_pages [where fetch = fetch and n = n, OF assms]
  have b: "map_option messages (buildTranscript cid cname fetch uid) = fetchAllMessages fetch"
    "map_option channelId (buildTranscript cid cname fetch uid) = Some cid"
    "map_option channelName (buildTranscript cid cname fetch uid) = Some cname"
    by (simp_all add: bt f)
  have times: "map_option (map createdAt) (fetchAllMessages fetch') =
                 map_option (map createdAt) (fetchAllMessages fetch)"
    if e: "fetch' (cursorFrom fetch' None n') = []" and m: "mset ?raw' = mset ?raw"
  proof -
    have "mset (map createdAt ?msgs') = mset (map createdAt ?msgs)"
      using m by simp
    then have "map createdAt ?msgs' = map createdAt ?msgs"
      by (intro sorted_same_mset) simp_all
    then show ?thesis
      using fetchAllMessages_pages [of fetch' n'] e by (simp add: f)
  qed
  have same: "fetchAllMessages fetch' = fetchAllMessages fetch \<and>
              buildTranscript cid cname fetch' uid = buildTranscript cid cname fetch uid"
    if e: "fetch' (cursorFrom fetch' None n') = []" and m: "mset ?raw' = mset ?raw"
      and d: "distinct (map rawCreatedAt ?raw)"
  proof -
    have "mset (map toTranscriptMessage ?raw) = mset (map toTranscriptMessage ?raw')"
      using m by simp
    moreover have "distinct (map createdAt (map toTranscriptMessage ?raw))"
      using d by (simp only: createdAt_toTranscriptMessage)
    ultimately have "?msgs = ?msgs'"
      by (rule sort_key_same_mset)
    then show ?thesis
      using fetchAllMessages_pages [of fetch' n'] e by (simp add: f buildTranscript_def)
  qed
  have pages: "buildTranscript cid cname fetch' uid = buildTranscript cid cname fetch uid"
    if e: "fetch' (cursorFrom fetch' None n') = []" and m: "?raw' = ?raw"
    using buildTranscript_pages [where fetch = fetch' and n = n', OF e] by (simp add: bt m)
  show ?thesis
    using f b times same pages by simp
qed

theorem fetchAllMessages_sorted_witness:
  "pagedStore (cursorFrom pagedStore None 2) = [] \<and>
   flatStore (cursorFrom flatStore None 1) = [] \<and>
   mset (pagesFrom flatStore None 1) = mset (pagesFrom pagedStore None 2) \<and>
   distinct (map rawCreatedAt (pagesFrom pagedStore None 2)) \<and>
   fetchAllMessages pagedStore =
     Some (map toTranscriptMessage
            [rawMsg ''1'' ''bot'' 10 ''[POLY_CHECKIN #5] first round'',
             rawMsg ''2'' ''ann'' 20 ''we are   fine'',
             rawMsg ''3'' ''bot'' 30 ''[POLY_CHECKIN #2] second round'']) \<and>
   map_option messages (buildTranscript (js ''c1'') (js ''team-1'') pagedStore (js ''bot'')) =
     Some (map toTranscriptMessage
            [rawMsg ''1'' ''bot'' 10 ''[POLY_CHECKIN #5] first round'',
             rawMsg ''2'' ''ann'' 20 ''we are   fine'',
             rawMsg ''3'' ''bot'' 30 ''[POLY_CHECKIN #2] second round'']) \<and>
   map_option (map createdAt) (fetchAllMessages pagedStore) = Some [10, 20, 30] \<and>
   buildTranscript (js ''c1'') (js ''team-1'') flatStore (js ''bot'') =
     buildTranscript (js ''c1'') (js ''team-1'') pagedStore (js ''bot'')"
proof -
  have p: "pagesFrom pagedStore None 2 =
             [rawMsg ''3'' ''bot'' 30 ''[POLY_CHECKIN #2] second round'',
              rawMsg ''2'' ''ann'' 20 ''we are   fine'',
              rawMsg ''1'' ''bot'' 10 ''[POLY_CHECKIN #5] first round'']"
    by (simp add: pagedStore_def rawMsg_def numeral_2_eq_2)
  have q: "pagesFrom flatStore None 1 =
             [rawMsg ''1'' ''bot'' 10 ''[POLY_CHECKIN #5] first round'',
              rawMsg ''3'' ''bot'' 30 ''[POLY_CHECKIN #2] second round'',
              rawMsg ''2'' ''ann'' 20 ''we are   fine'']"
    by (simp add: flatStore_def rawMsg_def)
  have c: "pagedStore (cursorFrom pagedStore None 2) = []"
    by (simp add: pagedStore_def rawMsg_def numeral_2_eq_2)
  have c': "flatStore (cursorFrom flatStore None 1) = []"
    by (simp add: flatStore_def rawMsg_def)
  have m: "mset (pagesFrom flatStore None 1) = mset (pagesFrom pagedStore None 2)"
    unfolding p q by (simp add: add.commute)
  have d: "distinct (map rawCreatedAt (pagesFrom pagedStore None 2))"
    unfolding p by (simp add: rawMsg_def)
  have s: "sort_key createdAt (map toTranscriptMessage (pagesFrom pagedStore None 2)) =
             map toTranscriptMessage
               [rawMsg ''1'' ''bot'' 10 ''[POLY_CHECKIN #5] first round'',
                rawMsg ''2'' ''ann'' 20 ''we are   fine'',
                rawMsg ''3'' ''bot'' 30 ''[POLY_CHECKIN #2] second round'']"
    unfolding p by (simp add: rawMsg_def toTranscriptMessage_def)
  note T = fetchAllMessages_sorted
    [where fetch = pagedStore and n = 2 and fetch' = flatStore and n' = 1
       and cid = "js ''c1''" and cname = "js ''team-1''" and uid = "js ''bot''", OF c]
  from T have f: "fetchAllMessages pagedStore =
                    Some (sort_key createdAt (map toTranscriptMessage (pagesFrom pagedStore None 2)))"
    by blast
  from T have g: "map_option messages (buildTranscript (js ''c1'') (js ''team-1'') pagedStore (js ''bot'')) =
                    fetchAllMessages pagedStore"
    by blast
  from T c' m d have
    h: "buildTranscript (js ''c1'') (js ''team-1'') flatStore (js ''bot'') =
          buildTranscript (js ''c1'') (js ''team-1'') pagedStore (js ''bot'')"
    by blast
  have t: "map_option (map createdAt) (fetchAllMessages pagedStore) = Some [10, 20, 30]"
    unfolding f s by (simp add: rawMsg_def toTranscriptMessage_def)
  show ?thesis
    using c c' m d f g h t unfolding s by simp
qed

subsection \<open>The latest check-in of a transcript\<close>

lemma scanCheckins_last:
  "scanCheckins uid msgs latest =
     (if botMarkers uid msgs = [] then latest
      else (checkinNumberOf (last (botMarkers uid msgs)),
            Some (createdAt (last (botMarkers uid msgs)))))"
proof (induction msgs arbitrary: latest)
  case Nil
  show ?case by (simp add: botMarkers_def)
next
  case (Cons m ms)
  show ?case
    by (cases "regexSearch markerAt (content m)")
       (simp_all add: Cons botMarkers_def checkinNumberOf_def)
qed

lemma sorted_last_Max:
  fixes xs :: "'a::linorder list"
  shows "sorted xs \<Longrightarrow> xs \<noteq> [] \<Longrightarrow> last xs = Max (set xs)"
proof (induction xs)
  case Nil
  then show ?case by simp
next
  case (Cons x xs)
  show ?case
  proof (cases "xs = []")
    case True
    then show ?thesis by simp
  next
    case False
    with Cons have "last xs = Max (set xs)" and "\<forall>y\<in>set xs. x \<le> y"
      by auto
    moreover have "Max (set xs) \<in> set xs"
      using False by simp
    ultimately show ?thesis
      using False by (simp add: max_def)
  qed
qed

lemma checkinNumberOf_botMarkers:
  "m \<in> set (botMarkers uid msgs) \<Longrightarrow> checkinNumberOf m = Some (markerNumber m)"
  by (auto simp add: botMarkers_def markerNumber_def)

lemma Max_insert_max:
  fixes A :: "'a::linorder set"
  shows "finite A \<Longrightarrow> Max (insert (max a b) A) = Max (insert a (insert b A))"
  by (cases "A = {}") (simp_all add: max.assoc)

lemma scanMax_Max:
  "scanMax uid history mx = Max (insert mx (markerNumber ` set (botMarkers uid history)))"
proof (induction history arbitrary: mx)
  case Nil
  show ?case by (simp add: botMarkers_def)
next
  case (Cons m ms)
  have fin: "finite (markerNumber ` set (botMarkers uid ms))"
    by simp
  show ?case
  proof (cases "authorId m = uid \<and> regexSearch markerAt (content m) \<noteq> None")
    case True
    then obtain ds where ds: "regexSearch markerAt (content m) = Some ds"
      by auto
    then have mn: "markerNumber m = Number ds"
      by (simp add: markerNumber_def checkinNumberOf_def)
    have bm: "botMarkers uid (m # ms) = m # botMarkers uid ms"
      using True by (simp add: botMarkers_def checkinNumberOf_def)
    have "scanMax uid (m # ms) mx = Max (insert (max mx (Number ds)) (markerNumber ` set (botMarkers uid ms)))"
      using True ds by (simp add: Cons)
    also have "\<dots> = Max (insert mx (insert (Number ds) (markerNumber ` set (botMarkers uid ms))))"
      using fin by (rule Max_insert_max)
    finally show ?thesis
      by (simp add: bm mn)
  next
    case False
    then have "botMarkers uid (m # ms) = botMarkers uid ms"
      by (auto simp add: botMarkers_def checkinNumberOf_def)
    moreover have "scanMax uid (m # ms) mx = scanMax uid ms mx"
      using False by (auto split: option.splits)
    ultimately show ?thesis
      by (simp add: Cons)
  qed
qed

lemma scanMax_ignores_others:
  "scanMax uid history mx = scanMax uid (filter (\<lambda>m. authorId m = uid) history) mx"
  by (induction history arbitrary: mx) (auto split: option.splits)

text \<open>
  Claim C1, as stated, fails. In the channel of \<open>pagedStore\<close> the bot wrote marker 5
  at time 10 and marker 2 at time 30: the transcript's latest check-in number is 2, the
  number of the later message, and not the maximum 5.
\<close>

theorem buildTranscript_latest_counterexample:
  "map_option latestCheckinNumber
     (buildTranscript (js ''c1'') (js ''team-1'') pagedStore (js ''bot'')) = Some (Some 2) \<and>
   map_option (markerNumbers (js ''bot''))
     (buildTranscript (js ''c1'') (js ''team-1'') pagedStore (js ''bot'')) = Some [5, 2] \<and>
   Some (Max (set [5, 2 :: enat])) \<noteq> Some 2"
  by (simp add: buildTranscript_def markerNumbers_def botMarkers_def markerNumber_def
      checkinNumberOf_def pagedStore_def transcript_eval)

text \<open>
  Claim C1, amended. When the store reaches an empty page, \<open>buildTranscript\<close> returns
  a transcript, whose messages are the fetched ones in chronological order. Its latest
  check-in number is the number of the last message, in that order, that the bot wrote and
  that matches the marker pattern, and its latest check-in timestamp is the creation time
  of that message; both are absent when the bot wrote no marker. That number is the
  maximum of the bot's marker numbers whenever these do not decrease along the transcript.
\<close>

theorem buildTranscript_latest_checkin:
  assumes "fetch (cursorFrom fetch None n) = []"
  shows "\<exists>t. buildTranscript cid cname fetch uid = Some t \<and>
           messages t = sort_key createdAt (map toTranscriptMessage (pagesFrom fetch None n)) \<and>
           (botMarkers uid (messages t) = [] \<longrightarrow>
              latestCheckinNumber t = None \<and> latestCheckinTimestamp t = None) \<and>
           (botMarkers uid (messages t) \<noteq> [] \<longrightarrow>
              latestCheckinNumber t = Some (markerNumber (last (botMarkers uid (messages t)))) \<and>
              latestCheckinTimestamp t = Some (createdAt (last (botMarkers uid (messages t))))) \<and>
           (botMarkers uid (messages t) \<noteq> [] \<and> sorted (markerNumbers uid t) \<longrightarrow>
              latestCheckinNumber t = Some (Max (set (markerNumbers uid t))))"
proof -
  let ?msgs = "sort_key createdAt (map toTranscriptMessage (pagesFrom fetch None n))"
  obtain t where t: "buildTranscript cid cname fetch uid = Some t" and m: "messages t = ?msgs"
    and l: "latestCheckinNumber t = fst (scanCheckins uid ?msgs (None, None))"
           "latestCheckinTimestamp t = snd (scanCheckins uid ?msgs (None, None))"
    using buildTranscript_pages [where fetch = fetch and n = n, OF assms] by simp
  let ?ms = "botMarkers uid (messages t)"
  have scan: "(latestCheckinNumber t, latestCheckinTimestamp t) =
                (if ?ms = [] then (None, None)
                 else (checkinNumberOf (last ?ms), Some (createdAt (last ?ms))))"
    using l by (simp add: m scanCheckins_last)
  have num: "checkinNumberOf (last ?ms) = Some (markerNumber (last ?ms))" if "?ms \<noteq> []"
    using that by (intro checkinNumberOf_botMarkers [of _ uid "messages t"]) simp
  have mx: "markerNumber (last ?ms) = Max (set (markerNumbers uid t))"
    if "?ms \<noteq> []" "sorted (markerNumbers uid t)"
    using sorted_last_Max [of "markerNumbers uid t"] that
    by (simp add: markerNumbers_def last_map)
  have "(?ms = [] \<longrightarrow> latestCheckinNumber t = None \<and> latestCheckinTimestamp t = None) \<and>
        (?ms \<noteq> [] \<longrightarrow>
           latestCheckinNumber t = Some (markerNumber (last ?ms)) \<and>
           latestCheckinTimestamp t = Some (createdAt (last ?ms))) \<and>
        (?ms \<noteq> [] \<and> sorted (markerNumbers uid t) \<longrightarrow>
           latestCheckinNumber t = Some (Max (set (markerNumbers uid t))))"
    using scan num mx by (auto split: if_splits)
  with t m show ?thesis by blast
qed

theorem buildTranscript_latest_checkin_witness:
  "controlStore (cursorFrom controlStore None 1) = [] \<and>
   (\<exists>t. buildTranscript (js ''c0'') (js ''control'') controlStore (js ''bot'') = Some t \<and>
       botMarkers (js ''bot'') (messages t) \<noteq> [] \<and> sorted (markerNumbers (js ''bot'') t) \<and>
       markerNumbers (js ''bot'') t = [1, 2] \<and>
       latestCheckinNumber t = Some 2 \<and> latestCheckinTimestamp t = Some 20)"
proof -
  have c: "controlStore (cursorFrom controlStore None 1) = []"
    by (simp add: controlStore_def rawMsg_def)
  have p: "sort_key createdAt (map toTranscriptMessage (pagesFrom controlStore None 1)) =
             map toTranscriptMessage
               [rawMsg ''1'' ''bot'' 10 ''[POLY_CHECKIN #1]'',
                rawMsg ''2'' ''bot'' 20 ''[POLY_CHECKIN #2]'',
                rawMsg ''3'' ''ann'' 30 ''[POLY_CHECKIN #99]'']"
    by (simp add: controlStore_def rawMsg_def toTranscriptMessage_def)
  from buildTranscript_latest_checkin
    [where fetch = controlStore and n = 1 and cid = "js ''c0''" and cname = "js ''control''"
       and uid = "js ''bot''", OF c]
  obtain t where t: "buildTranscript (js ''c0'') (js ''control'') controlStore (js ''bot'') = Some t"
    and m: "messages t = sort_key createdAt (map toTranscriptMessage (pagesFrom controlStore None 1))"
    and l: "botMarkers (js ''bot'') (messages t) \<noteq> [] \<longrightarrow>
              latestCheckinNumber t = Some (markerNumber (last (botMarkers (js ''bot'') (messages t)))) \<and>
              latestCheckinTimestamp t = Some (createdAt (last (botMarkers (js ''bot'') (messages t))))"
    by blast
  have b: "botMarkers (js ''bot'') (messages t) =
             map toTranscriptMessage
               [rawMsg ''1'' ''bot'' 10 ''[POLY_CHECKIN #1]'',
                rawMsg ''2'' ''bot'' 20 ''[POLY_CHECKIN #2]'']"
    unfolding m p by (simp add: botMarkers_def checkinNumberOf_def transcript_eval)
  have n: "markerNumbers (js ''bot'') t = [1, 2]"
    unfolding markerNumbers_def b
    by (simp add: markerNumber_def checkinNumberOf_def transcript_eval)
  from l b have
    "latestCheckinNumber t = Some 2 \<and> latestCheckinTimestamp t = Some 20"
    by (simp add: markerNumber_def checkinNumberOf_def transcript_eval)
  with c t b n show ?thesis by simp
qed

section \<open>Properties of counter recovery\<close>

lemma detectLastCheckinNumber_markers:
  assumes "fetch (cursorFrom fetch None n) = []"
  shows "detectLastCheckinNumber fetch uid =
           Some (Max (insert 0 (markerNumber `
                  set (botMarkers uid
                         (sort_key createdAt (map toTranscriptMessage (pagesFrom fetch None n)))))))"
  using fetchAllMessages_pages [of fetch n] assms
  by (simp add: detectLastCheckinNumber_def scanMax_Max)

lemma summaryStore_content:
  "map rawContent (summaryStore None) =
     [js ''Check-in #5 sent.'' @ [10] @ js ''Delivered: 2/2'' @ [10] @ js ''Failed: none'']"
  by (simp add: summaryStore_def checkinSummaryText_def numberToString_exact decimal_digit
      numeral_eq_enat)

text \<open>
  Claim C3 against the code. The control channel of \<open>summaryStore\<close> holds what the
  bot itself leaves there after check-in 5: the summary \<open>Check-in #5 sent.\<close> that
  \<open>runCheckin\<close> posts as its reply. The current revision of \<open>detectLastCheckinNumber\<close>
  matches the marker only and recovers 0 from it, where the claim, and the earlier
  revision of the function that also reads the phrase, give 5; a process started on this
  channel numbers its first check-in 1 again.
\<close>

theorem detectLastCheckinNumber_summary:
  "map rawContent (summaryStore None) =
     [js ''Check-in #5 sent.'' @ [10] @ js ''Delivered: 2/2'' @ [10] @ js ''Failed: none''] \<and>
   map rawAuthorId (summaryStore None) = [js ''bot''] \<and>
   detectLastCheckinNumber summaryStore (js ''bot'') = Some 0 \<and>
   detectLastCheckinNumberLegacy summaryStore (js ''bot'') = Some 5"
proof -
  have s: "summaryStore None =
             [\<lparr> rawId = js ''1'', rawAuthorId = js ''bot'', rawDisplayName = None,
                rawUsername = js ''bot'', rawCreatedAt = 10,
                rawContent = js ''Check-in #5 sent.'' @ [10] @ js ''Delivered: 2/2'' @ [10] @
                             js ''Failed: none'' \<rparr>]"
    using summaryStore_content by (simp add: summaryStore_def)
  have e: "summaryStore (Some x) = []" for x
    by (simp add: summaryStore_def)
  have f: "fetchAllMessages summaryStore = Some (map toTranscriptMessage (summaryStore None))"
    by (simp add: fetchAllMessages_def fetchLoop_step fetchLoop_done s e)
  have a: "detectLastCheckinNumber summaryStore (js ''bot'') = Some 0"
    unfolding detectLastCheckinNumber_def f s
    by (simp add: toTranscriptMessage_def cleanContent_def trim_def trimStart_def trimEnd_def
        isWhiteSpace_def markerAt_def canonicalize_def)
  have b: "detectLastCheckinNumberLegacy summaryStore (js ''bot'') = Some 5"
    unfolding detectLastCheckinNumberLegacy_def f s
    by (simp add: toTranscriptMessage_def cleanContent_def trim_def trimStart_def trimEnd_def
        isWhiteSpace_def markerAt_def legacyAt_def canonicalize_def isDigit_def double_eval)
  show ?thesis
    using summaryStore_content a b by (simp add: s)
qed

section \<open>Properties of template rendering\<close>

lemmas template_eval =
  renderTemplate_def keyPattern_def isSyntaxCharacter_def keyAt_def keyThenClose_def
  placeholderAt_def nameThenClose_def isWordChar_def isWhiteSpace_def isWord_def

















lemma getSubstitution_plain: "36 \<notin> set v \<Longrightarrow> getSubstitution m pre post v = v"
  by (induction m pre post v rule: getSubstitution.induct) auto






subsection \<open>The names the error lists\<close>










subsection \<open>Templates made of text and placeholders\<close>




















section \<open>Properties of team channel discovery and batch delivery\<close>

lemmas team_eval = getTeamChannels_def isTeamTextChannel_def getTeamNumber_def teamChannelMatch_def
  MAX_TEAM_NUMBER_def textChannel_def canonicalize_def isDigit_def guildCache_def double_eval

lemma getTeamChannels_guildCache:
  "getTeamChannels guildCache = [textChannel ''11'' ''team-1'', textChannel ''12'' ''team-2'']"
  by (simp add: team_eval)

lemma set_getTeamChannels:
  "set (getTeamChannels cache) =
     {ch \<in> set cache. chType ch = GuildText \<and>
        (\<exists>d. teamChannelMatch (chName ch) = Some d \<and> Number d \<le> MAX_TEAM_NUMBER)}"
  by (auto simp add: getTeamChannels_def isTeamTextChannel_def getTeamNumber_def)

lemma sorted_getTeamChannels:
  "sorted (map (\<lambda>ch. getTeamNumber (chName ch)) (getTeamChannels cache))"
  by (simp add: getTeamChannels_def)

lemma teamChannelMatch_bound:
  assumes "teamChannelMatch nm = Some d"
  shows "Number d \<le> 99"
proof -
  from assms have len: "length d = 1 \<or> length d = 2" and dig: "list_all isDigit d"
    by (auto simp add: teamChannelMatch_def split: option.splits if_splits)
  from len consider a where "d = [a]" | a b where "d = [a, b]"
    by (cases d; cases "tl d"; cases "tl (tl d)") auto
  then have v: "decimalValue d \<le> 99"
    using dig by cases (auto simp add: decimalValue_def isDigit_def)
  have "(99::nat) < 2 ^ 53" by simp
  with v have "decimalValue d < 2 ^ 53" by (rule le_less_trans)
  then have "Number d = enat (decimalValue d)"
    by (simp add: Number_def doubleOfNat_exact)
  then show ?thesis
    using v by (simp add: numeral_eq_enat)
qed

lemma sendLoop_filter:
  "sendLoop d targets (sent, failed) =
     (sent @ map chName (filter d targets), failed @ map chName (filter (\<lambda>c. \<not> d c) targets))"
  by (induction targets arbitrary: sent failed) auto

lemma mset_filter_names:
  "mset (map chName (filter d targets)) + mset (map chName (filter (\<lambda>c. \<not> d c) targets)) =
     mset (map chName targets)"
  by (induction targets) auto

lemma sendLoop_partition:
  assumes "sendLoop d targets ([], []) = (sent, failed)"
  shows "deliveryPartition d targets sent failed"
proof -
  from assms have s: "sent = map chName (filter d targets)"
    and f: "failed = map chName (filter (\<lambda>c. \<not> d c) targets)"
    by (simp_all add: sendLoop_filter)
  have dis: "set sent \<inter> set failed = {}" if "distinct (map chName targets)"
    using that unfolding s f by (induction targets) auto
  have un: "set sent \<union> set failed = set (map chName targets)"
    unfolding s f by auto
  show ?thesis
    unfolding deliveryPartition_def using s f dis un mset_filter_names [of d targets] by simp
qed

lemma runSend_summary:
  assumes "runSend w target = Some (SendSummary sent failed)"
  shows "sendLoop (delivers w) (selectedChannels w target) ([], []) = (sent, failed)"
  using assms by (auto simp add: runSend_def split: if_splits prod.splits)

lemma checkin_keys_modelled:
  "renderTemplate template
     [(js ''checkin_number'', a), (js ''checkin_message'', b), (js ''extra_prompt_block'', c)] \<noteq>
     Inl SyntaxError \<and>
   renderTemplate template
     [(js ''checkin_number'', a), (js ''checkin_message'', b), (js ''extra_prompt_block'', c)] \<noteq>
     Inl Unmodelled"
  by (simp add: renderTemplate_def keyPattern_def isSyntaxCharacter_def Let_def)

lemma numberAndSend_counter: "snd (numberAndSend w template c) = Some (incrementCounter c)"
  by (simp add: numberAndSend_def Let_def split: sum.splits prod.splits)

lemma numberAndSend_summary:
  assumes "fst (numberAndSend w template c) = CheckinSummary k sent failed"
  shows "sendLoop (delivers w) (getTeamChannels (channelsCache w)) ([], []) = (sent, failed)"
    and "k = incrementCounter c"
  using assms by (auto simp add: numberAndSend_def Let_def split: sum.splits prod.splits)

lemma runCheckin_summary:
  assumes "fst (runCheckin w cached) = CheckinSummary k sent failed"
  shows "sendLoop (delivers w) (getTeamChannels (channelsCache w)) ([], []) = (sent, failed)"
    and "snd (runCheckin w cached) = Some k" and "k = incrementCounter (counterBase w cached)"
proof -
  from assms obtain template c where
    c: "(case cached of
           None \<Rightarrow> detectLastCheckinNumber (controlMessages w) (botUser w)
         | Some n \<Rightarrow> Some n) = Some c"
    and r: "runCheckin w cached = numberAndSend w template c"
    by (auto simp add: runCheckin_def beforeNumbering_def split: option.splits if_splits)
  have b: "counterBase w cached = c"
    using c by (cases cached) (simp_all add: counterBase_def)
  from assms show "sendLoop (delivers w) (getTeamChannels (channelsCache w)) ([], []) = (sent, failed)"
    unfolding r by (rule numberAndSend_summary(1))
  from assms have k: "k = incrementCounter c"
    unfolding r by (rule numberAndSend_summary(2))
  then show "k = incrementCounter (counterBase w cached)"
    by (simp add: b)
  show "snd (runCheckin w cached) = Some k"
    by (simp add: r numberAndSend_counter k)
qed

lemma batch_names_subset:
  assumes "deliveryPartition d targets sent failed"
  shows "set sent \<union> set failed \<subseteq> chName ` set targets"
  using assms by (auto simp add: deliveryPartition_def)

lemma selectedChannels_subset:
  "set (selectedChannels w target) \<subseteq> set (getTeamChannels (channelsCache w))"
  by (auto simp add: selectedChannels_def Let_def)

text \<open>
  Claim C10. \<open>getTeamChannels\<close> returns exactly the text channels of the cache whose
  name is \<open>team-N\<close> with \<open>N\<close> at most \<open>MAX_TEAM_NUMBER = 3\<close>, in ascending order of
  team number. A channel named \<open>team-N\<close> with a larger number (up to 99, the largest
  the pattern admits) is not returned, and its name is never among the names a check-in
  broadcast or a send reports: both take their targets from \<open>getTeamChannels\<close>, and
  the status prompt holds the transcripts of the channels of \<open>getTeamChannels\<close> only.
\<close>

theorem getTeamChannels_max_team:
  "set (getTeamChannels cache) =
     {ch \<in> set cache. chType ch = GuildText \<and>
        (\<exists>d. teamChannelMatch (chName ch) = Some d \<and> Number d \<le> 3)} \<and>
   sorted (map (\<lambda>ch. getTeamNumber (chName ch)) (getTeamChannels cache)) \<and>
   (teamChannelMatch (chName ch) = Some d \<and> 4 \<le> Number d \<longrightarrow>
      Number d \<le> 99 \<and> ch \<notin> set (getTeamChannels cache) \<and>
      chName ch \<notin> chName ` set (getTeamChannels cache)) \<and>
   (runSend w target = Some (SendSummary sent failed) \<longrightarrow>
      set sent \<union> set failed \<subseteq> chName ` set (getTeamChannels (channelsCache w))) \<and>
   (fst (runCheckin w cached) = CheckinSummary k sent' failed' \<longrightarrow>
      set sent' \<union> set failed' \<subseteq> chName ` set (getTeamChannels (channelsCache w))) \<and>
   set (teamTranscripts rendered cache) =
     rendered ` {ch \<in> set cache. chType ch = GuildText \<and>
        (\<exists>d. teamChannelMatch (chName ch) = Some d \<and> Number d \<le> 3)}"
proof -
  have st: "set (teamTranscripts rendered cache) =
     rendered ` {ch \<in> set cache. chType ch = GuildText \<and>
        (\<exists>d. teamChannelMatch (chName ch) = Some d \<and> Number d \<le> 3)}"
    using set_getTeamChannels [of cache] by (simp add: teamTranscripts_def MAX_TEAM_NUMBER_def)
  have excl: "Number d \<le> 99 \<and> ch \<notin> set (getTeamChannels cache) \<and>
      chName ch \<notin> chName ` set (getTeamChannels cache)"
    if m: "teamChannelMatch (chName ch) = Some d" and n: "4 \<le> Number d"
  proof -
    have "\<not> Number d \<le> 3"
      using n by (cases "Number d") (simp_all add: numeral_eq_enat)
    then have "x \<notin> set (getTeamChannels cache)" if "chName x = chName ch" for x
      using that m by (auto simp add: set_getTeamChannels MAX_TEAM_NUMBER_def)
    then show ?thesis
      using teamChannelMatch_bound [OF m] by auto
  qed
  have snd: "set sent \<union> set failed \<subseteq> chName ` set (getTeamChannels (channelsCache w))"
    if "runSend w target = Some (SendSummary sent failed)"
    using batch_names_subset [OF sendLoop_partition [OF runSend_summary [OF that]]]
      selectedChannels_subset [of w target] by blast
  have chk: "set sent' \<union> set failed' \<subseteq> chName ` set (getTeamChannels (channelsCache w))"
    if "fst (runCheckin w cached) = CheckinSummary k sent' failed'"
    using batch_names_subset [OF sendLoop_partition [OF runCheckin_summary(1) [OF that]]] .
  show ?thesis
    using set_getTeamChannels [of cache] sorted_getTeamChannels [of cache] excl snd chk st
    by (simp add: MAX_TEAM_NUMBER_def)
qed

theorem getTeamChannels_max_team_witness:
  "getTeamChannels guildCache = [textChannel ''11'' ''team-1'', textChannel ''12'' ''team-2''] \<and>
   teamChannelMatch (chName (textChannel ''14'' ''team-4'')) = Some (js ''4'') \<and>
   4 \<le> Number (js ''4'') \<and>
   textChannel ''14'' ''team-4'' \<in> set guildCache \<and>
   textChannel ''14'' ''team-4'' \<notin> set (getTeamChannels guildCache) \<and>
   runSend teamWorld (js ''all'') = Some (SendSummary [js ''team-1''] [js ''team-2'']) \<and>
   set [js ''team-1''] \<union> set [js ''team-2''] \<subseteq> chName ` set (getTeamChannels guildCache)"
proof -
  have m: "teamChannelMatch (chName (textChannel ''14'' ''team-4'')) = Some (js ''4'')"
    by (simp add: team_eval)
  have s: "runSend teamWorld (js ''all'') = Some (SendSummary [js ''team-1''] [js ''team-2''])"
    by (simp add: runSend_def selectedChannels_def teamWorld_def getTeamChannels_guildCache
        textChannel_def)
  have c: "channelsCache teamWorld = guildCache"
    by (simp add: teamWorld_def)
  have mem: "textChannel ''14'' ''team-4'' \<in> set guildCache"
    by (simp add: guildCache_def)
  have n: "4 \<le> Number (js ''4'')"
    by (simp add: double_eval)
  note T = getTeamChannels_max_team
    [where cache = guildCache and ch = "textChannel ''14'' ''team-4''" and d = "js ''4''"
       and w = teamWorld and target = "js ''all''" and sent = "[js ''team-1'']"
       and failed = "[js ''team-2'']"]
  from T m n have a: "textChannel ''14'' ''team-4'' \<notin> set (getTeamChannels guildCache)"
    by blast
  from T s have
    "set [js ''team-1''] \<union> set [js ''team-2''] \<subseteq>
       chName ` set (getTeamChannels (channelsCache teamWorld))"
    by blast
  then have b:
    "set [js ''team-1''] \<union> set [js ''team-2''] \<subseteq> chName ` set (getTeamChannels guildCache)"
    unfolding c .
  show ?thesis
    using m n mem s a b by (simp add: getTeamChannels_guildCache)
qed

text \<open>
  Claim C5, as stated, fails when two targeted channels bear the same name, which
  the platform allows: with two channels named \<open>team-1\<close>, one delivery succeeding and
  one failing, the name is in both lists.
\<close>

theorem batch_delivery_counterexample:
  "runSend twinWorld (js ''all'') = Some (SendSummary [js ''team-1''] [js ''team-1'']) \<and>
   set [js ''team-1''] \<inter> set [js ''team-1''] \<noteq> {}"
  by (simp add: runSend_def selectedChannels_def twinWorld_def teamWorld_def team_eval)

text \<open>
  Claim C5, amended. For every batch send (check-in broadcast or multi-channel send)
  over the targeted channels, each targeted channel adds its name to exactly one of the
  two lists, delivered when its delivery succeeds and failed otherwise, in target order,
  whatever happened to the channels before it; the two lists together hold the names of
  the targets, each as often as it is borne, and no other name; and when the targets bear
  pairwise distinct names the lists are disjoint and form a partition of the target names.
\<close>

theorem batch_delivery_partition:
  "(runSend w target = Some (SendSummary sent failed) \<longrightarrow>
      deliveryPartition (delivers w) (selectedChannels w target) sent failed) \<and>
   (fst (runCheckin w cached) = CheckinSummary k sent' failed' \<longrightarrow>
      deliveryPartition (delivers w) (getTeamChannels (channelsCache w)) sent' failed')"
  using sendLoop_partition [OF runSend_summary, of w target sent failed]
    sendLoop_partition [OF runCheckin_summary(1), of w cached k sent' failed']
  by blast

lemma detect_controlStore: "detectLastCheckinNumber controlStore (js ''bot'') = Some 2"
  by (simp add: detectLastCheckinNumber_def controlStore_def transcript_eval)

lemma detect_teamWorld:
  "detectLastCheckinNumber (controlMessages teamWorld) (botUser teamWorld) = Some 2"
  using detect_controlStore by (simp add: teamWorld_def)


lemma beforeNumbering_teamWorld:
  "beforeNumbering teamWorld =
     Inr (js ''[POLY_CHECKIN #{{checkin_number}}] {{checkin_message}}{{extra_prompt_block}}'')"
  by (simp add: beforeNumbering_def teamWorld_def getTeamChannels_guildCache)

lemma numberAndSend_teamWorld:
  "numberAndSend teamWorld
     (js ''[POLY_CHECKIN #{{checkin_number}}] {{checkin_message}}{{extra_prompt_block}}'') 2 =
     (CheckinSummary 3 [js ''team-1''] [js ''team-2''], Some 3)"
proof -
  have n: "incrementCounter 2 = 3"
    by (simp add: incrementCounter_def double_eval)
  have s: "numberToString 3 = js ''3''"
    by (simp add: numberToString_exact decimal_digit numeral_eq_enat)
  have m: "checkinMessageFor 3 = Some (CHECKIN_MESSAGES ! 2)"
    by (simp add: checkinMessageFor_def CHECKIN_MESSAGES_def double_eval)
  show ?thesis
    apply (simp add: numberAndSend_def n s m)
    apply (simp add: CHECKIN_MESSAGES_def teamWorld_def template_eval
        getTeamChannels_guildCache textChannel_def)
    done
qed

lemma runCheckin_teamWorld:
  "runCheckin teamWorld None = (CheckinSummary 3 [js ''team-1''] [js ''team-2''], Some 3)"
  using numberAndSend_teamWorld
  by (simp add: runCheckin_def beforeNumbering_teamWorld detect_teamWorld)

theorem batch_delivery_partition_witness:
  "runSend teamWorld (js ''all'') = Some (SendSummary [js ''team-1''] [js ''team-2'']) \<and>
   fst (runCheckin teamWorld None) = CheckinSummary 3 [js ''team-1''] [js ''team-2''] \<and>
   distinct (map chName (getTeamChannels (channelsCache teamWorld))) \<and>
   deliveryPartition (delivers teamWorld) (getTeamChannels (channelsCache teamWorld))
     [js ''team-1''] [js ''team-2''] \<and>
   set [js ''team-1''] \<inter> set [js ''team-2''] = {}"
proof -
  have s: "runSend teamWorld (js ''all'') = Some (SendSummary [js ''team-1''] [js ''team-2''])"
    by (simp add: runSend_def selectedChannels_def teamWorld_def getTeamChannels_guildCache
        textChannel_def)
  have c: "fst (runCheckin teamWorld None) = CheckinSummary 3 [js ''team-1''] [js ''team-2'']"
    by (simp add: runCheckin_teamWorld)
  have d: "distinct (map chName (getTeamChannels (channelsCache teamWorld)))"
    by (simp add: teamWorld_def getTeamChannels_guildCache textChannel_def)
  from batch_delivery_partition
    [where w = teamWorld and target = "js ''all''" and sent = "[js ''team-1'']"
       and failed = "[js ''team-2'']" and cached = None and k = 3
       and sent' = "[js ''team-1'']" and failed' = "[js ''team-2'']"]
    s c d
  show ?thesis by simp
qed

section \<open>Properties of the check-in counter\<close>


















section \<open>Properties of chunk splitting\<close>

lemma splitLines_nonempty: "splitLines s \<noteq> []"
  by (induction s) (auto split: list.splits)

lemma splitLines_no_break: "l \<in> set (splitLines s) \<Longrightarrow> 10 \<notin> set l"
  by (induction s arbitrary: l) (auto split: list.splits if_splits)

lemma joinLines_splitLines: "joinLines (splitLines s) = s"
proof (induction s)
  case Nil
  show ?case by simp
next
  case (Cons c s)
  obtain l ls where "splitLines s = l # ls"
    using splitLines_nonempty [of s] by (cases "splitLines s") auto
  then show ?case using Cons by auto
qed

lemma concat_splitLines: "concat (splitLines s) = filter (\<lambda>c. c \<noteq> 10) s"
proof (induction s)
  case Nil
  show ?case by simp
next
  case (Cons c s)
  obtain l ls where "splitLines s = l # ls"
    using splitLines_nonempty [of s] by (cases "splitLines s") auto
  then show ?case using Cons by auto
qed

lemma splitLines_plain: "10 \<notin> set s \<Longrightarrow> splitLines s = [s]"
  by (induction s) auto

lemma splitLines_append: "10 \<notin> set a \<Longrightarrow> splitLines (a @ 10 # s) = a # splitLines s"
  by (induction a) auto

lemma sliceLoop_chop:
  "0 < maxLen \<Longrightarrow> sliceLoop maxLen line start parts = Some (parts @ chop maxLen (drop start line))"
proof (induction maxLen line start parts rule: sliceLoop.induct)
  case (1 maxLen line start parts)
  show ?case
  proof (cases "start < length line")
    case True
    then have "sliceLoop maxLen line start parts =
                 sliceLoop maxLen line (start + maxLen) (parts @ [take maxLen (drop start line)])"
      using "1.prems" by (subst sliceLoop.simps) simp
    also have "\<dots> = Some ((parts @ [take maxLen (drop start line)]) @
                          chop maxLen (drop (start + maxLen) line))"
      using True "1.prems" by (intro "1.IH") simp_all
    finally have a: "sliceLoop maxLen line start parts =
                 Some ((parts @ [take maxLen (drop start line)]) @
                          chop maxLen (drop (start + maxLen) line))" .
    have "chop maxLen (drop start line) =
                 take maxLen (drop start line) # chop maxLen (drop (start + maxLen) line)"
      using True "1.prems" by (subst chop.simps) (simp add: add.commute)
    with a show ?thesis by simp
  next
    case False
    then show ?thesis
      by (subst sliceLoop.simps, subst chop.simps) simp
  qed
qed

lemma concat_chop: "0 < maxLen \<Longrightarrow> concat (chop maxLen s) = s"
proof (induction maxLen s rule: chop.induct)
  case (1 maxLen s)
  then show ?case by (subst chop.simps) auto
qed

lemma chop_bound: "p \<in> set (chop maxLen s) \<Longrightarrow> length p \<le> maxLen \<and> p \<noteq> []"
proof (induction maxLen s rule: chop.induct)
  case (1 maxLen s)
  show ?case
  proof (cases "s = [] \<or> maxLen = 0")
    case True
    then have "chop maxLen s = []"
      by (subst chop.simps) simp
    then show ?thesis using "1.prems" by simp
  next
    case False
    then have e: "chop maxLen s = take maxLen s # chop maxLen (drop maxLen s)"
      by (subst chop.simps) simp
    from "1.prems" have "p = take maxLen s \<or> p \<in> set (chop maxLen (drop maxLen s))"
      unfolding e by simp
    then show ?thesis
    proof
      assume "p = take maxLen s"
      then show ?thesis using False by auto
    next
      assume "p \<in> set (chop maxLen (drop maxLen s))"
      with False show ?thesis by (rule "1.IH")
    qed
  qed
qed

lemma chop_nonempty: "0 < maxLen \<Longrightarrow> s \<noteq> [] \<Longrightarrow> chop maxLen s \<noteq> []"
  by (subst chop.simps) simp

lemma lineLoop_emitted:
  assumes "0 < maxLen"
  shows "\<exists>ps c. lineLoop maxLen lines (parts, current) = Some (ps, c) \<and>
           (if length c > 0 then ps @ [c] else ps) = parts @ emitted maxLen lines current"
proof (induction lines arbitrary: parts current)
  case Nil
  show ?case by simp
next
  case (Cons line lines)
  show ?case
  proof (cases "length current + 1 + length line > maxLen")
    case over: True
    show ?thesis
    proof (cases "length line > maxLen")
      case True
      let ?fl = "if length current > 0 then parts @ [current] else parts"
      have s: "sliceLoop maxLen line 0 ?fl = Some (?fl @ chop maxLen line)"
        using sliceLoop_chop [OF assms, of line 0 ?fl] by simp
      obtain ps c where "lineLoop maxLen lines (?fl @ chop maxLen line, []) = Some (ps, c)"
        and "(if length c > 0 then ps @ [c] else ps) = (?fl @ chop maxLen line) @ emitted maxLen lines []"
        using Cons [of "?fl @ chop maxLen line" "[]"] by blast
      then show ?thesis
        using over True s by (auto simp add: Let_def)
    next
      case False
      let ?fl = "if length current > 0 then parts @ [current] else parts"
      obtain ps c where "lineLoop maxLen lines (?fl, line) = Some (ps, c)"
        and "(if length c > 0 then ps @ [c] else ps) = ?fl @ emitted maxLen lines line"
        using Cons [of ?fl line] by blast
      then show ?thesis
        using over False by (auto simp add: Let_def)
    qed
  next
    case False
    let ?cur = "if length current = 0 then line else current @ [10] @ line"
    obtain ps c where "lineLoop maxLen lines (parts, ?cur) = Some (ps, c)"
      and "(if length c > 0 then ps @ [c] else ps) = parts @ emitted maxLen lines ?cur"
      using Cons [of parts ?cur] by blast
    then show ?thesis
      using False by auto
  qed
qed

lemma splitForDiscord_emitted:
  assumes "0 < maxLen"
  shows "splitForDiscord text maxLen =
           Some (if length text \<le> maxLen then [text] else emitted maxLen (splitLines text) [])"
proof -
  obtain ps c where "lineLoop maxLen (splitLines text) ([], []) = Some (ps, c)"
    and "(if length c > 0 then ps @ [c] else ps) = [] @ emitted maxLen (splitLines text) []"
    using lineLoop_emitted [OF assms, of "splitLines text" "[]" "[]"] by blast
  then show ?thesis
    by (simp add: splitForDiscord_def)
qed

lemma emitted_bound:
  "length current \<le> maxLen \<Longrightarrow> p \<in> set (emitted maxLen lines current) \<Longrightarrow> length p \<le> maxLen"
proof (induction lines arbitrary: current)
  case Nil
  then show ?case by (auto split: if_splits)
next
  case (Cons line lines)
  show ?case
  proof (cases "length current + 1 + length line > maxLen")
    case True
    then show ?thesis
      using Cons.prems Cons.IH [of "[]"] Cons.IH [of line] chop_bound [of p maxLen line]
      by (auto split: if_splits)
  next
    case False
    then show ?thesis
      using Cons.prems Cons.IH [of line] Cons.IH [of "current @ 10 # line"]
      by (auto split: if_splits)
  qed
qed

lemma emitted_content:
  assumes "0 < maxLen" and "\<forall>l\<in>set lines. 10 \<notin> set l"
  shows "filter (\<lambda>c. c \<noteq> 10) (concat (emitted maxLen lines current)) =
           filter (\<lambda>c. c \<noteq> 10) current @ concat lines"
  using assms(2)
proof (induction lines arbitrary: current)
  case Nil
  show ?case by simp
next
  case (Cons line lines)
  then have l: "filter (\<lambda>c. c \<noteq> 10) line = line" and ls: "\<forall>l\<in>set lines. 10 \<notin> set l"
    by (auto simp add: filter_id_conv)
  show ?case
    using Cons.IH [OF ls] l concat_chop [OF assms(1), of line]
    by (auto simp add: Let_def)
qed

lemma rejoins_nonempty: "rejoins cs t \<Longrightarrow> cs \<noteq> []"
  by (induction rule: rejoins.induct) auto

lemma rejoins_append_glued:
  assumes "rejoins A a" and "rejoins B b"
  shows "rejoins (A @ B) (a @ b)"
  using assms(1)
proof (induction rule: rejoins.induct)
  case (single c)
  obtain d ds where "B = d # ds"
    using rejoins_nonempty [OF assms(2)] by (cases B) auto
  then show ?case using assms(2) by (auto intro: rejoins.glued)
next
  case (glued d cs t c)
  then show ?case using rejoins.glued [of d "cs @ B" "t @ b" c] by simp
next
  case (broken d cs t c)
  then show ?case using rejoins.broken [of d "cs @ B" "t @ b" c] by simp
qed

lemma rejoins_append_broken:
  assumes "rejoins A a" and "rejoins B b"
  shows "rejoins (A @ B) (a @ 10 # b)"
  using assms(1)
proof (induction rule: rejoins.induct)
  case (single c)
  obtain d ds where "B = d # ds"
    using rejoins_nonempty [OF assms(2)] by (cases B) auto
  then show ?case using assms(2) by (auto intro: rejoins.broken)
next
  case (glued d cs t c)
  then show ?case using rejoins.glued [of d "cs @ B" "t @ 10 # b" c] by simp
next
  case (broken d cs t c)
  then show ?case using rejoins.broken [of d "cs @ B" "t @ 10 # b" c] by simp
qed

lemma rejoins_chop: "0 < maxLen \<Longrightarrow> s \<noteq> [] \<Longrightarrow> rejoins (chop maxLen s) s"
proof (induction maxLen s rule: chop.induct)
  case (1 maxLen s)
  have e: "chop maxLen s = take maxLen s # chop maxLen (drop maxLen s)"
    using "1.prems" by (subst chop.simps) simp
  show ?case
  proof (cases "drop maxLen s = []")
    case True
    then have "chop maxLen (drop maxLen s) = []" by (subst chop.simps) simp
    moreover have "take maxLen s = s" using True by simp
    ultimately show ?thesis using e by (simp add: rejoins.single)
  next
    case False
    have "rejoins (chop maxLen (drop maxLen s)) (drop maxLen s)"
      using "1.prems" False by (intro "1.IH") simp_all
    from rejoins_append_glued [OF rejoins.single [of "take maxLen s"] this]
    show ?thesis using e by simp
  qed
qed

lemma emitted_nonempty: "current \<noteq> [] \<Longrightarrow> emitted maxLen lines current \<noteq> []"
  by (induction lines arbitrary: current) auto

lemma breaks_joinLines: "ls \<noteq> [] \<Longrightarrow> concat (map ((#) 10) ls) = 10 # joinLines ls"
  by (cases ls) auto

lemma joinLines_append:
  "a \<noteq> [] \<Longrightarrow> b \<noteq> [] \<Longrightarrow> joinLines (a @ b) = joinLines a @ 10 # joinLines b"
  by (cases a; cases b) auto

lemma joinLines_snoc: "run \<noteq> [] \<Longrightarrow> joinLines (run @ [line]) = joinLines run @ 10 # line"
  by (simp add: joinLines_append)

lemma joinLines_empty: "run = [] \<or> hd run \<noteq> [] \<Longrightarrow> (joinLines run = []) = (run = [])"
  by (cases run) auto

lemma emitted_grouping:
  "run = [] \<or> hd run \<noteq> [] \<Longrightarrow>
     emitted maxLen lines (joinLines run) = concat (map (chunksOf maxLen) (grouping maxLen lines run))"
proof (induction lines arbitrary: run)
  case Nil
  then show ?case by (simp add: joinLines_empty)
next
  case (Cons line lines)
  have e: "(joinLines run = []) = (run = [])"
    using Cons.prems by (rule joinLines_empty)
  have none: "emitted maxLen lines [] = concat (map (chunksOf maxLen) (grouping maxLen lines []))"
    using Cons.IH [of "[]"] by simp
  have one: "emitted maxLen lines line =
               concat (map (chunksOf maxLen) (grouping maxLen lines (if line = [] then [] else [line])))"
    using Cons.IH [of "[line]"] none by simp
  have more: "emitted maxLen lines (joinLines run @ 10 # line) =
                concat (map (chunksOf maxLen) (grouping maxLen lines (run @ [line])))"
    if "run \<noteq> []"
    using Cons.IH [of "run @ [line]"] Cons.prems that by (simp add: joinLines_snoc)
  show ?case
  proof (cases "length (joinLines run) + 1 + length line > maxLen")
    case True
    then show ?thesis
      using e none one by simp
  next
    case False
    then show ?thesis
      using e one more by simp
  qed
qed

lemma grouping_lines:
  "\<not> dropsEmptyLine maxLen lines (joinLines run) \<Longrightarrow> run = [] \<or> hd run \<noteq> [] \<Longrightarrow>
     concat (map linesOf (grouping maxLen lines run)) = run @ lines"
proof (induction lines arbitrary: run)
  case Nil
  then show ?case by simp
next
  case (Cons line lines)
  have e: "(joinLines run = []) = (run = [])"
    using Cons.prems(2) by (rule joinLines_empty)
  show ?case
  proof (cases "length (joinLines run) + 1 + length line > maxLen")
    case over: True
    show ?thesis
    proof (cases "length line > maxLen")
      case True
      then have "\<not> dropsEmptyLine maxLen lines (joinLines [])"
        using Cons.prems(1) over by simp
      then have "concat (map linesOf (grouping maxLen lines [])) = [] @ lines"
        by (rule Cons.IH) simp
      then show ?thesis using over True by simp
    next
      case False
      then have l: "line \<noteq> []" and d: "\<not> dropsEmptyLine maxLen lines (joinLines [line])"
        using Cons.prems(1) over by simp_all
      from d have "concat (map linesOf (grouping maxLen lines [line])) = [line] @ lines"
        by (rule Cons.IH) (simp add: l)
      then show ?thesis using over False l by simp
    qed
  next
    case fits: False
    show ?thesis
    proof (cases "run = []")
      case True
      then have l: "line \<noteq> []" and d: "\<not> dropsEmptyLine maxLen lines (joinLines [line])"
        using Cons.prems(1) fits by simp_all
      from d have "concat (map linesOf (grouping maxLen lines [line])) = [line] @ lines"
        by (rule Cons.IH) (simp add: l)
      then show ?thesis using fits True l by simp
    next
      case False
      then have "\<not> dropsEmptyLine maxLen lines (joinLines (run @ [line]))"
        using Cons.prems(1) fits e by (simp add: joinLines_snoc)
      then have "concat (map linesOf (grouping maxLen lines (run @ [line]))) = (run @ [line]) @ lines"
        using Cons.prems(2) False by (intro Cons.IH) simp_all
      then show ?thesis using fits False by simp
    qed
  qed
qed

lemma grouping_nonempty_lines:
  "filter (\<lambda>l. l \<noteq> []) (concat (map linesOf (grouping maxLen lines run))) =
     filter (\<lambda>l. l \<noteq> []) (run @ lines)"
  by (induction lines arbitrary: run) auto

lemma grouping_wellGrouped:
  "run = [] \<or> hd run \<noteq> [] \<Longrightarrow> length (joinLines run) \<le> maxLen \<Longrightarrow>
     g \<in> set (grouping maxLen lines run) \<Longrightarrow> wellGrouped maxLen g"
proof (induction lines arbitrary: run)
  case Nil
  then show ?case by (auto split: if_splits)
next
  case (Cons line lines)
  have none: "wellGrouped maxLen g" if "g \<in> set (grouping maxLen lines [])"
    using that by (intro Cons.IH [of "[]"]) simp_all
  have one: "wellGrouped maxLen g"
    if "g \<in> set (grouping maxLen lines [line])" "line \<noteq> []" "length line \<le> maxLen"
    using that by (intro Cons.IH [of "[line]"]) simp_all
  have more: "wellGrouped maxLen g"
    if "g \<in> set (grouping maxLen lines (run @ [line]))" "run \<noteq> []"
      "length (joinLines run) + 1 + length line \<le> maxLen"
    using that Cons.prems(1) by (intro Cons.IH [of "run @ [line]"]) (simp_all add: joinLines_snoc)
  show ?case
  proof (cases "length (joinLines run) + 1 + length line > maxLen")
    case True
    then show ?thesis
      using Cons.prems(2,3) none one by (auto split: if_splits)
  next
    case False
    then show ?thesis
      using Cons.prems(3) none one more by (auto split: if_splits)
  qed
qed

lemma linesOf_nonempty: "wellGrouped maxLen g \<Longrightarrow> linesOf g \<noteq> []"
  by (cases g) auto

lemma groups_rejoin:
  assumes "0 < maxLen"
  shows "gs \<noteq> [] \<Longrightarrow> \<forall>g\<in>set gs. wellGrouped maxLen g \<Longrightarrow>
           rejoins (concat (map (chunksOf maxLen) gs)) (joinLines (concat (map linesOf gs)))"
proof (induction gs)
  case Nil
  then show ?case by simp
next
  case (Cons g gs)
  have g: "rejoins (chunksOf maxLen g) (joinLines (linesOf g))"
  proof (cases g)
    case (WholeLines ls)
    then show ?thesis by (simp add: rejoins.single)
  next
    case (LongLine l)
    then have "l \<noteq> []" using Cons.prems(2) by auto
    then show ?thesis using LongLine rejoins_chop [OF assms, of l] by simp
  qed
  show ?case
  proof (cases "gs = []")
    case True
    then show ?thesis using g by simp
  next
    case False
    then have "rejoins (concat (map (chunksOf maxLen) gs)) (joinLines (concat (map linesOf gs)))"
      using Cons by simp
    from rejoins_append_broken [OF g this]
    have "rejoins (concat (map (chunksOf maxLen) (g # gs)))
            (joinLines (linesOf g) @ 10 # joinLines (concat (map linesOf gs)))"
      by simp
    moreover have "concat (map linesOf gs) \<noteq> []"
      using False Cons.prems(2) linesOf_nonempty [of maxLen] by (cases gs) auto
    moreover have "linesOf g \<noteq> []"
      using Cons.prems(2) linesOf_nonempty [of maxLen g] by simp
    ultimately show ?thesis
      by (simp add: joinLines_append)
  qed
qed

lemma no_empty_line_kept: "[] \<notin> set lines \<Longrightarrow> \<not> dropsEmptyLine maxLen lines current"
  by (induction lines arbitrary: current) auto

text \<open>
  Claim C6, as stated, fails. An empty line that arrives while the current chunk is
  empty leaves no trace in the chunks: a text that begins with a line break followed by
  a line of 1900 units comes back as that line alone, and no choice of line breaks
  between the chunks restores the text.
\<close>

theorem splitForDiscord_roundtrip_counterexample:
  "splitForDiscord (10 # replicate 1900 120) 1900 = Some [replicate 1900 120] \<and>
   \<not> rejoins [replicate 1900 120] (10 # replicate 1900 120) \<and>
   dropsEmptyLine 1900 (splitLines (10 # replicate 1900 120)) []"
proof -
  have l: "splitLines (10 # replicate 1900 120) = [[], replicate 1900 120]"
    by (simp add: splitLines_plain)
  then have a: "splitForDiscord (10 # replicate 1900 120) 1900 = Some [replicate 1900 120]"
    by (simp add: splitForDiscord_def)
  have b: "\<not> rejoins [replicate 1900 120] (10 # replicate 1900 120)"
  proof
    assume "rejoins [replicate 1900 120] (10 # replicate 1900 120)"
    then have "replicate 1900 (120::nat) = 10 # replicate 1900 120"
      by (cases rule: rejoins.cases) auto
    then have "length (replicate 1900 (120::nat)) = length (10 # replicate 1900 (120::nat))"
      by simp
    then show False by simp
  qed
  have c: "dropsEmptyLine 1900 (splitLines (10 # replicate 1900 120)) []"
    unfolding l by simp
  show ?thesis using a b c by simp
qed

text \<open>
  Claim C6, amended. For every text and every positive maximum (1900 by default),
  \<open>splitForDiscord\<close> returns chunks, each of length at most the maximum. The chunks
  are, in order, those of a sequence of groups: a group is a run of whole lines, joined
  by line breaks into one chunk not longer than the maximum, or a single line longer than
  the maximum, cut every \<open>maxLen\<close> units; so a line is cut only when it alone exceeds
  the maximum. The lines of the groups are the lines of the text in their order, except
  that empty lines may be missing; the chunks hold the units of the text other than line
  breaks. When the text is not longer than the maximum, or has no empty line, or more
  generally when no empty line is met while the current chunk is empty or full, the lines
  of the groups are exactly the lines of the text, and the text is the chunks in order
  with nothing between the pieces of a cut line and one line break between any other two
  consecutive chunks.
\<close>

theorem splitForDiscord_chunks:
  assumes "0 < maxLen"
  shows "\<exists>parts gs. splitForDiscord text maxLen = Some parts \<and>
           (\<forall>p\<in>set parts. length p \<le> maxLen) \<and>
           parts = concat (map (chunksOf maxLen) gs) \<and>
           (\<forall>g\<in>set gs. wellGrouped maxLen g) \<and>
           filter (\<lambda>l. l \<noteq> []) (concat (map linesOf gs)) =
             filter (\<lambda>l. l \<noteq> []) (splitLines text) \<and>
           filter (\<lambda>c. c \<noteq> 10) (concat parts) = filter (\<lambda>c. c \<noteq> 10) text \<and>
           (length text \<le> maxLen \<or> [] \<notin> set (splitLines text) \<or>
            \<not> dropsEmptyLine maxLen (splitLines text) [] \<longrightarrow>
              concat (map linesOf gs) = splitLines text \<and> rejoins parts text)"
proof (cases "length text \<le> maxLen")
  case True
  let ?gs = "[WholeLines (splitLines text)]"
  have "splitForDiscord text maxLen = Some [text]"
    by (simp add: splitForDiscord_def True)
  moreover have "[text] = concat (map (chunksOf maxLen) ?gs)"
    by (simp add: joinLines_splitLines)
  moreover have "\<forall>g\<in>set ?gs. wellGrouped maxLen g"
    using True by (simp add: joinLines_splitLines splitLines_nonempty)
  moreover have "concat (map linesOf ?gs) = splitLines text"
    by simp
  moreover have "rejoins [text] text"
    by (rule rejoins.single)
  ultimately have
    "splitForDiscord text maxLen = Some [text] \<and>
     (\<forall>p\<in>set [text]. length p \<le> maxLen) \<and>
     [text] = concat (map (chunksOf maxLen) ?gs) \<and>
     (\<forall>g\<in>set ?gs. wellGrouped maxLen g) \<and>
     filter (\<lambda>l. l \<noteq> []) (concat (map linesOf ?gs)) = filter (\<lambda>l. l \<noteq> []) (splitLines text) \<and>
     filter (\<lambda>c. c \<noteq> 10) (concat [text]) = filter (\<lambda>c. c \<noteq> 10) text \<and>
     (length text \<le> maxLen \<or> [] \<notin> set (splitLines text) \<or>
      \<not> dropsEmptyLine maxLen (splitLines text) [] \<longrightarrow>
        concat (map linesOf ?gs) = splitLines text \<and> rejoins [text] text)"
    using True by simp
  then show ?thesis by blast
next
  case False
  let ?parts = "emitted maxLen (splitLines text) []"
  let ?gs = "grouping maxLen (splitLines text) []"
  have s: "splitForDiscord text maxLen = Some ?parts"
    using splitForDiscord_emitted [OF assms, of "text"] False by simp
  have b: "\<forall>p\<in>set ?parts. length p \<le> maxLen"
    using emitted_bound [of "[]" maxLen _ "splitLines text"] by simp
  have p: "?parts = concat (map (chunksOf maxLen) ?gs)"
    using emitted_grouping [of "[]" maxLen "splitLines text"] by simp
  have w: "\<forall>g\<in>set ?gs. wellGrouped maxLen g"
    using grouping_wellGrouped [of "[]" maxLen _ "splitLines text"] by simp
  have n: "filter (\<lambda>l. l \<noteq> []) (concat (map linesOf ?gs)) = filter (\<lambda>l. l \<noteq> []) (splitLines text)"
    using grouping_nonempty_lines [of maxLen "splitLines text" "[]"] by simp
  have "filter (\<lambda>c. c \<noteq> 10) (concat ?parts) = filter (\<lambda>c. c \<noteq> 10) [] @ concat (splitLines text)"
    using splitLines_no_break by (intro emitted_content [OF assms]) blast
  then have c: "filter (\<lambda>c. c \<noteq> 10) (concat ?parts) = filter (\<lambda>c. c \<noteq> 10) text"
    by (simp add: concat_splitLines)
  have r: "concat (map linesOf ?gs) = splitLines text \<and> rejoins ?parts text"
    if "[] \<notin> set (splitLines text) \<or> \<not> dropsEmptyLine maxLen (splitLines text) []"
  proof -
    have d: "\<not> dropsEmptyLine maxLen (splitLines text) []"
      using that no_empty_line_kept [of "splitLines text" maxLen "[]"] by blast
    have l: "concat (map linesOf ?gs) = splitLines text"
      using grouping_lines [of maxLen "splitLines text" "[]"] d by simp
    then have "?gs \<noteq> []"
      using splitLines_nonempty [of "text"] by auto
    then have "rejoins (concat (map (chunksOf maxLen) ?gs)) (joinLines (concat (map linesOf ?gs)))"
      using w by (rule groups_rejoin [OF assms])
    then show ?thesis
      using l p by (simp add: joinLines_splitLines)
  qed
  have "splitForDiscord text maxLen = Some ?parts \<and>
     (\<forall>p\<in>set ?parts. length p \<le> maxLen) \<and>
     ?parts = concat (map (chunksOf maxLen) ?gs) \<and>
     (\<forall>g\<in>set ?gs. wellGrouped maxLen g) \<and>
     filter (\<lambda>l. l \<noteq> []) (concat (map linesOf ?gs)) = filter (\<lambda>l. l \<noteq> []) (splitLines text) \<and>
     filter (\<lambda>c. c \<noteq> 10) (concat ?parts) = filter (\<lambda>c. c \<noteq> 10) text \<and>
     (length text \<le> maxLen \<or> [] \<notin> set (splitLines text) \<or>
      \<not> dropsEmptyLine maxLen (splitLines text) [] \<longrightarrow>
        concat (map linesOf ?gs) = splitLines text \<and> rejoins ?parts text)"
    using s b p w n c r False by blast
  then show ?thesis by blast
qed

theorem splitForDiscord_chunks_witness:
  "(0::nat) < 5 \<and>
   [] \<in> set (splitLines (js ''ab'' @ [10, 10] @ js ''cd'' @ [10] @ js ''ef'')) \<and>
   \<not> dropsEmptyLine 5 (splitLines (js ''ab'' @ [10, 10] @ js ''cd'' @ [10] @ js ''ef'')) [] \<and>
   splitForDiscord (js ''ab'' @ [10, 10] @ js ''cd'' @ [10] @ js ''ef'') 5 =
     Some [js ''ab'' @ [10], js ''cd'' @ [10] @ js ''ef''] \<and>
   rejoins [js ''ab'' @ [10], js ''cd'' @ [10] @ js ''ef'']
     (js ''ab'' @ [10, 10] @ js ''cd'' @ [10] @ js ''ef'') \<and>
   (0::nat) < 1900 \<and>
   splitForDiscord (replicate 1900 97 @ 10 # replicate 1901 98 @ 10 # js ''end'') 1900 =
     Some [replicate 1900 97, replicate 1900 98, [98], js ''end''] \<and>
   [replicate 1900 97, replicate 1900 98, [98], js ''end''] =
     concat (map (chunksOf 1900)
       [WholeLines [replicate 1900 97], LongLine (replicate 1901 98), WholeLines [js ''end'']]) \<and>
   rejoins [replicate 1900 97, replicate 1900 98, [98], js ''end'']
     (replicate 1900 97 @ 10 # replicate 1901 98 @ 10 # js ''end'')"
proof -
  let ?small = "js ''ab'' @ [10, 10] @ js ''cd'' @ [10] @ js ''ef''"
  let ?text = "replicate 1900 97 @ 10 # replicate 1901 98 @ 10 # js ''end''"
  have sl: "splitLines ?small = [js ''ab'', [], js ''cd'', js ''ef'']"
    by simp
  have sd: "\<not> dropsEmptyLine 5 (splitLines ?small) []"
    unfolding sl by simp
  have ss: "splitForDiscord ?small 5 = Some [js ''ab'' @ [10], js ''cd'' @ [10] @ js ''ef'']"
    by (simp add: splitForDiscord_def)
  obtain parts where "splitForDiscord ?small 5 = Some parts"
    and "\<not> dropsEmptyLine 5 (splitLines ?small) [] \<longrightarrow> rejoins parts ?small"
    using splitForDiscord_chunks [of 5 ?small] by auto
  then have sr: "rejoins [js ''ab'' @ [10], js ''cd'' @ [10] @ js ''ef''] ?small"
    using sd unfolding ss by simp
  have l: "splitLines ?text = [replicate 1900 97, replicate 1901 98, js ''end'']"
    by (simp add: splitLines_append splitLines_plain)
  have c: "chop 1900 (replicate 1901 98) = [replicate 1900 98, [98]]"
    by (simp add: chop.simps [of 1900 "replicate 1901 98"] chop.simps [of 1900 "[98]"] chop.simps [of 1900 "[]"])
  have e: "emitted 1900 (splitLines ?text) [] =
             [replicate 1900 97, replicate 1900 98, [98], js ''end'']"
    unfolding l by (simp add: c)
  have s: "splitForDiscord ?text 1900 = Some [replicate 1900 97, replicate 1900 98, [98], js ''end'']"
    using splitForDiscord_emitted [of 1900 ?text] unfolding e by simp
  have g: "[replicate 1900 97, replicate 1900 98, [98], js ''end''] =
     concat (map (chunksOf 1900)
       [WholeLines [replicate 1900 97], LongLine (replicate 1901 98), WholeLines [js ''end'']])"
    by (simp add: c)
  have n: "[] \<notin> set (splitLines ?text)"
    unfolding l by auto
  obtain parts' where "splitForDiscord ?text 1900 = Some parts'"
    and "[] \<notin> set (splitLines ?text) \<longrightarrow> rejoins parts' ?text"
    using splitForDiscord_chunks [of 1900 ?text] by auto
  then have r: "rejoins [replicate 1900 97, replicate 1900 98, [98], js ''end''] ?text"
    using n unfolding s by simp
  show ?thesis
    using sd ss sr s g r by (simp add: sl)
qed

end
